theory Spec2Isabelle
  imports
    Main
    "HOL-Library.Multiset"
    "HOL-Library.Char_ord"
    "HOL-Library.List_Lexorder"
    "HOL-Library.Product_Lexorder"
begin

chapter \<open>A multi-round gift auction over a transactional document store\<close>

text \<open>
  The development embeds the auction service in HOL: the ranking of bids
  (\<^verbatim>\<open>src/domain/ranking.ts\<close>), the user and bidding operations
  (\<^verbatim>\<open>src/services/users.ts\<close>, \<^verbatim>\<open>src/services/auctions.ts\<close>), the transaction wrapper
  (\<^verbatim>\<open>src/db/transactions.ts\<close>) and the settlement of a closing round
  (\<^verbatim>\<open>src/services/auctionEngine.ts\<close>).

  Conventions of the embedding.
  \<^item> A JavaScript number that the program uses as an integer amount or as a count is an
    \<^typ>\<open>int\<close>; a \<^verbatim>\<open>Date\<close> is its \<^verbatim>\<open>getTime()\<close>, an \<^typ>\<open>int\<close> of milliseconds.
  \<^item> The balance fields of a user are doubles with integer values. The \<^verbatim>\<open>$inc\<close> updates
    of these fields add in double precision: \<open>incField\<close> rounds the sum to the nearest
    double, ties to even. Sums up to \<open>2\<^sup>5\<^sup>3\<close> in magnitude are exact. The exponent range of
    doubles is not modelled, and counts, times and prices are computed exactly.
  \<^item> An \<^verbatim>\<open>ObjectId\<close> is its hexadecimal string; byte order and string order agree on it.
  \<^item> A collection is the list of its documents in insertion order. The unique indexes
    created by \<^verbatim>\<open>ensureIndexes\<close> (and the one on \<^verbatim>\<open>_id\<close>) are checked by the
    operations that insert or update, which fail with the server's duplicate-key error.
  \<^item> \<^verbatim>\<open>new Date()\<close> and \<^verbatim>\<open>new ObjectId()\<close> are inputs of an operation: a transaction
    body gets them in a \<open>txn_env\<close>, one per attempt of the transaction.
  \<^item> A \<^verbatim>\<open>throw\<close> is the left summand of a result; a transaction body returns the store with
    the writes made so far, and \<open>withTxn\<close> discards them when the body has thrown.
  \<^item> The \<^verbatim>\<open>_id\<close> of a ledger entry and of a round document is read nowhere in the program
    and is left out of those two records.
\<close>

section \<open>Ranking (\<^verbatim>\<open>src/domain/ranking.ts\<close>)\<close>

type_synonym oid = string
type_synonym time = int

record RankableBid =
  userId :: oid
  amount :: int
  lastBidAt :: time

definition compareRankableBids :: "'a RankableBid_scheme \<Rightarrow> 'b RankableBid_scheme \<Rightarrow> int" where
  "compareRankableBids a b =
     (if amount a \<noteq> amount b then amount b - amount a
      else let at = lastBidAt a; bt = lastBidAt b in
        if at \<noteq> bt then at - bt
        else if userId a < userId b then -1
        else if userId a > userId b then 1
        else 0)"

text \<open>
  \<^verbatim>\<open>Array.prototype.sort\<close> with a comparator is a stable sort; it is modelled by the
  stable insertion sort that puts \<open>x\<close> before the first element it does not compare
  greater than.
\<close>

fun insertSorted :: "('a \<Rightarrow> 'a \<Rightarrow> int) \<Rightarrow> 'a \<Rightarrow> 'a list \<Rightarrow> 'a list" where
  "insertSorted cmp x [] = [x]"
| "insertSorted cmp x (y # ys) =
     (if cmp x y \<le> 0 then x # y # ys else y # insertSorted cmp x ys)"

definition array_sort :: "('a \<Rightarrow> 'a \<Rightarrow> int) \<Rightarrow> 'a list \<Rightarrow> 'a list" where
  "array_sort cmp xs = foldr (insertSorted cmp) xs []"

definition selectWinners ::
  "'a RankableBid_scheme list \<Rightarrow> int \<Rightarrow> 'a RankableBid_scheme list \<times> int" where
  "selectWinners bids winnersCount =
     (if winnersCount \<le> 0 then ([], 0)
      else let sorted = array_sort compareRankableBids bids;
               winners = take (nat winnersCount) sorted;
               clearingPrice = (if length winners = 0 then 0
                                else amount (winners ! (length winners - 1)))
           in (winners, clearingPrice))"

text \<open>
  The order as the specification words it: higher amount first, then earlier
  \<open>lastBidAt\<close>, then lower \<open>userId\<close>. \<open>ranksBefore a b\<close> says that \<open>a\<close> may stand
  before \<open>b\<close>.
\<close>

definition ranksBefore :: "'a RankableBid_scheme \<Rightarrow> 'b RankableBid_scheme \<Rightarrow> bool" where
  "ranksBefore a b \<longleftrightarrow>
     amount a > amount b \<or>
     (amount a = amount b \<and>
       (lastBidAt a < lastBidAt b \<or>
        (lastBidAt a = lastBidAt b \<and> userId a \<le> userId b)))"

text \<open>The sort key of the query \<^verbatim>\<open>.sort({ amount: -1, lastBidAt: 1, userId: 1 })\<close>.\<close>

definition rankKey :: "'a RankableBid_scheme \<Rightarrow> int \<times> time \<times> oid" where
  "rankKey b = (- amount b, lastBidAt b, userId b)"

section \<open>Errors (\<^verbatim>\<open>src/errors.ts\<close>) and the errors of the store\<close>

datatype AppErrorCode =
    INVALID_ID
  | INVALID_INPUT
  | NOT_FOUND
  | NOT_STARTABLE
  | NOT_CANCELLABLE
  | NOT_OPEN
  | ROUND_ENDED
  | BID_NOT_ACTIVE
  | INSUFFICIENT_FUNDS
  | INVARIANT_VIOLATION

text \<open>
  What a \<^verbatim>\<open>throw\<close> carries: an \<^verbatim>\<open>AppError\<close> (code, message, HTTP status), a plain
  \<^verbatim>\<open>new Error(message)\<close>, an error of the database driver (numeric code, the
  \<^verbatim>\<open>keyPattern\<close> of the violated index when there is one, message, error labels), or
  \<^verbatim>\<open>undefined\<close>.
\<close>

datatype error =
    AppError AppErrorCode string int
  | JsError string
  | MongoServerError int "string list option" string "string list"
  | JsUndefined

definition duplicateKey :: "string list \<Rightarrow> error" where
  "duplicateKey keys = MongoServerError 11000 (Some keys) ''E11000 duplicate key error'' []"

fun startsWith :: "string \<Rightarrow> string \<Rightarrow> bool" where
  "startsWith s [] = True"
| "startsWith [] (p # ps) = False"
| "startsWith (c # cs) (p # ps) = (c = p \<and> startsWith cs ps)"

fun str_includes :: "string \<Rightarrow> string \<Rightarrow> bool" where
  "str_includes [] p = (p = [])"
| "str_includes (c # cs) p = (startsWith (c # cs) p \<or> str_includes cs p)"

fun isTransientTxnError :: "error \<Rightarrow> bool" where
  "isTransientTxnError (MongoServerError code kp message labels) =
     (''TransientTransactionError'' \<in> set labels)"
| "isTransientTxnError _ = False"

fun isDuplicateKeyError :: "error \<Rightarrow> bool" where
  "isDuplicateKeyError (MongoServerError code kp message labels) = (code = 11000)"
| "isDuplicateKeyError _ = False"

fun isDuplicateRoundSettlement :: "error \<Rightarrow> bool" where
  "isDuplicateRoundSettlement (MongoServerError code kp message labels) =
     (if \<not> isDuplicateKeyError (MongoServerError code kp message labels) then False
      else case kp of
             Some keys \<Rightarrow> ''auctionId'' \<in> set keys \<and> ''roundNumber'' \<in> set keys
           | None \<Rightarrow> str_includes message ''roundNumber'')"
| "isDuplicateRoundSettlement _ = False"

section \<open>Documents (\<^verbatim>\<open>src/db/collections.ts\<close>)\<close>

record Balance =
  available :: int
  reserved :: int
  spent :: int

record UserDoc =
  u_id :: oid
  u_createdAt :: time
  balance :: Balance
  totalTopups :: int

record AuctionConfig =
  roundDurationMs :: int
  winnersPerRound :: int
  antiSnipeWindowMs :: int
  antiSnipeExtendMs :: int
  maxWinsPerUser :: int
  maxDurationMs :: int
  maxConsecutiveEmptyRounds :: int

datatype AuctionState = Draft | Running | Ended | Cancelled
datatype AuctionRoundState = Open | Closing
datatype EndReason = SoldOut | MaxDuration | EmptyRounds | CancelledReason

record AuctionDoc =
  a_id :: oid
  a_createdAt :: time
  a_updatedAt :: time
  title :: string
  state :: AuctionState
  startedAt :: "time option"
  endsAt :: "time option"
  endedAt :: "time option"
  endReason :: "EndReason option"
  totalQuantity :: int
  awardedCount :: int
  revenue :: int
  currentRound :: int
  consecutiveEmptyRounds :: int
  roundState :: "AuctionRoundState option"
  roundEndsAt :: "time option"
  closingToken :: "string option"
  closingStartedAt :: "time option"
  version :: int
  config :: AuctionConfig

datatype BidStatus = Active | Won | Lost | Withdrawn

record BidSettlement =
  wonRound :: int
  giftSerial :: int
  clearingPrice :: int
  paid :: int
  refunded :: int
  settledAt :: time

text \<open>
  A bid document has the three fields of a \<open>RankableBid\<close>, with the user's
  \<^verbatim>\<open>ObjectId\<close> for \<open>userId\<close>.
\<close>

record BidDoc = RankableBid +
  b_id :: oid
  auctionId :: oid
  status :: BidStatus
  createdAt :: time
  updatedAt :: time
  settlement :: "BidSettlement option"

record RoundWinner =
  w_userId :: oid
  w_amount :: int
  w_giftSerial :: int
  w_paid :: int
  w_refunded :: int

record RoundDoc =
  r_auctionId :: oid
  roundNumber :: int
  r_endedAt :: time
  r_clearingPrice :: int
  winners :: "RoundWinner list"

datatype LedgerType = Topup | Reserve | Unreserve | Spend | Refund

datatype MetaValue = MetaString string | MetaNumber int

record LedgerDoc =
  l_createdAt :: time
  l_userId :: oid
  l_type :: LedgerType
  l_amount :: int
  l_auctionId :: "oid option"
  meta :: "(string \<times> MetaValue) list"

section \<open>The store and its primitives\<close>

record store =
  users :: "UserDoc list"
  auctions :: "AuctionDoc list"
  bids :: "BidDoc list"
  rounds :: "RoundDoc list"
  ledger :: "LedgerDoc list"

definition emptyStore :: store where
  "emptyStore = \<lparr>users = [], auctions = [], bids = [], rounds = [], ledger = []\<rparr>"

text \<open>
  \<^verbatim>\<open>updateOne\<close> and \<^verbatim>\<open>findOneAndUpdate\<close> change the first document that matches the
  filter. \<open>updateOne\<close> returns \<^verbatim>\<open>matchedCount\<close>; \<open>findOneAndUpdate\<close> returns the
  document after the update (\<^verbatim>\<open>returnDocument: 'after'\<close>), or \<^verbatim>\<open>null\<close>.
\<close>

fun updateFirst :: "('a \<Rightarrow> bool) \<Rightarrow> ('a \<Rightarrow> 'a) \<Rightarrow> 'a list \<Rightarrow> 'a list" where
  "updateFirst P f [] = []"
| "updateFirst P f (x # xs) = (if P x then f x # xs else x # updateFirst P f xs)"

definition updateOne :: "('a \<Rightarrow> bool) \<Rightarrow> ('a \<Rightarrow> 'a) \<Rightarrow> 'a list \<Rightarrow> nat \<times> 'a list" where
  "updateOne P f xs = ((case find P xs of None \<Rightarrow> 0 | Some x \<Rightarrow> 1), updateFirst P f xs)"

definition findOneAndUpdate ::
  "('a \<Rightarrow> bool) \<Rightarrow> ('a \<Rightarrow> 'a) \<Rightarrow> 'a list \<Rightarrow> 'a option \<times> 'a list" where
  "findOneAndUpdate P f xs = (map_option f (find P xs), updateFirst P f xs)"

text \<open>
  \<^verbatim>\<open>users.insertOne\<close>, \<^verbatim>\<open>auctions.insertOne\<close>: unique on \<^verbatim>\<open>_id\<close>.
  \<^verbatim>\<open>bids.insertOne\<close>: unique on \<^verbatim>\<open>_id\<close> and on \<^verbatim>\<open>(auctionId, userId)\<close>.
  \<^verbatim>\<open>rounds.insertOne\<close>: unique on \<^verbatim>\<open>(auctionId, roundNumber)\<close>.
  \<^verbatim>\<open>ledger.insertOne\<close> appends.
\<close>

definition insertUser :: "UserDoc \<Rightarrow> store \<Rightarrow> (error + unit) \<times> store" where
  "insertUser doc s =
     (if \<exists>u \<in> set (users s). u_id u = u_id doc then (Inl (duplicateKey [''_id'']), s)
      else (Inr (), s\<lparr>users := users s @ [doc]\<rparr>))"

definition insertAuction :: "AuctionDoc \<Rightarrow> store \<Rightarrow> (error + unit) \<times> store" where
  "insertAuction doc s =
     (if \<exists>a \<in> set (auctions s). a_id a = a_id doc then (Inl (duplicateKey [''_id'']), s)
      else (Inr (), s\<lparr>auctions := auctions s @ [doc]\<rparr>))"

definition insertBid :: "BidDoc \<Rightarrow> store \<Rightarrow> (error + unit) \<times> store" where
  "insertBid doc s =
     (if \<exists>b \<in> set (bids s). b_id b = b_id doc then (Inl (duplicateKey [''_id'']), s)
      else if \<exists>b \<in> set (bids s). auctionId b = auctionId doc \<and> userId b = userId doc
        then (Inl (duplicateKey [''auctionId'', ''userId'']), s)
      else (Inr (), s\<lparr>bids := bids s @ [doc]\<rparr>))"

definition insertRound :: "RoundDoc \<Rightarrow> store \<Rightarrow> (error + unit) \<times> store" where
  "insertRound doc s =
     (if \<exists>r \<in> set (rounds s). r_auctionId r = r_auctionId doc \<and> roundNumber r = roundNumber doc
        then (Inl (duplicateKey [''auctionId'', ''roundNumber'']), s)
      else (Inr (), s\<lparr>rounds := rounds s @ [doc]\<rparr>))"

definition insertLedger :: "LedgerDoc list \<Rightarrow> store \<Rightarrow> store" where
  "insertLedger docs s = s\<lparr>ledger := ledger s @ docs\<rparr>"

text \<open>
  The partial unique index on \<^verbatim>\<open>(auctionId, settlement.giftSerial)\<close> of bids with
  \<^verbatim>\<open>status: 'won'\<close>: the update of an active bid \<open>target\<close> to won with serial \<open>g\<close>
  is refused when a won bid of the same auction already has \<open>g\<close>.
\<close>

definition giftSerialTaken :: "BidDoc \<Rightarrow> int \<Rightarrow> BidDoc list \<Rightarrow> bool" where
  "giftSerialTaken target g bs \<longleftrightarrow>
     (\<exists>b \<in> set bs. auctionId b = auctionId target \<and> status b = Won
        \<and> map_option giftSerial (settlement b) = Some g)"

section \<open>Transactions (\<^verbatim>\<open>src/db/transactions.ts\<close>)\<close>

record txn_env =
  now :: time
  newObjectId :: oid

text \<open>
  \<open>withTxnLoop\<close> is the \<^verbatim>\<open>for\<close> loop of \<^verbatim>\<open>withTxn\<close>: \<open>fn attempt s\<close> runs the body in a
  session on the committed store \<open>s\<close>. When the body throws, the transaction is aborted:
  the next attempt, and the caller, see \<open>s\<close> again. No caller passes \<^verbatim>\<open>maxAttempts\<close>,
  so it is 5.
\<close>

function withTxnLoop ::
  "nat \<Rightarrow> nat \<Rightarrow> bool \<Rightarrow> error \<Rightarrow> (nat \<Rightarrow> store \<Rightarrow> (error + 'a) \<times> store) \<Rightarrow> store
     \<Rightarrow> (error + 'a) \<times> store" where
  "withTxnLoop attempt maxAttempts retryOnDuplicateKey lastErr fn s =
     (if attempt \<le> maxAttempts then
        (case fn attempt s of
           (Inr res, s') \<Rightarrow> (Inr res, s')
         | (Inl err, s') \<Rightarrow>
             if (isTransientTxnError err \<or> (retryOnDuplicateKey \<and> isDuplicateKeyError err))
                \<and> attempt < maxAttempts
             then withTxnLoop (attempt + 1) maxAttempts retryOnDuplicateKey err fn s
             else (Inl err, s))
      else (Inl lastErr, s))"
  by pat_completeness auto
termination
  by (relation "measure (\<lambda>(attempt, maxAttempts, r, e, f, s). Suc maxAttempts - attempt)") auto

definition withTxn ::
  "bool \<Rightarrow> (nat \<Rightarrow> store \<Rightarrow> (error + 'a) \<times> store) \<Rightarrow> store \<Rightarrow> (error + 'a) \<times> store" where
  "withTxn retryOnDuplicateKey fn s = withTxnLoop 1 5 retryOnDuplicateKey JsUndefined fn s"

definition isSafeInteger :: "int \<Rightarrow> bool" where
  "isSafeInteger n \<longleftrightarrow> - 9007199254740991 \<le> n \<and> n \<le> 9007199254740991"

text \<open>
  Numbers in balance fields. \<open>ulp m\<close> is the distance between neighbouring doubles at the
  magnitude \<open>m\<close>: 1 below \<open>2\<^sup>5\<^sup>3\<close>, 2 from there to \<open>2\<^sup>5\<^sup>4\<close>, and so on.
  \<open>roundToDouble\<close> rounds an integer to the nearest double, ties to the even significand,
  and \<open>incField\<close> is the \<^verbatim>\<open>$inc\<close> update of a numeric field.
\<close>

function ulp :: "int \<Rightarrow> int" where
  "ulp m = (if m < 9007199254740992 then 1 else 2 * ulp (m div 2))"
  by pat_completeness auto
termination
  by (relation "measure nat") auto

definition roundToDouble :: "int \<Rightarrow> int" where
  "roundToDouble n =
     (let m = \<bar>n\<bar>; q = ulp m; d = m div q; r = m mod q;
          up = (if 2 * r > q \<or> (2 * r = q \<and> odd d) then (d + 1) * q else d * q)
      in sgn n * up)"

definition incField :: "int \<Rightarrow> int \<Rightarrow> int" where
  "incField x d = roundToDouble (x + d)"

section \<open>Users (\<^verbatim>\<open>src/services/users.ts\<close>)\<close>

definition createUser :: "oid \<Rightarrow> time \<Rightarrow> store \<Rightarrow> (error + UserDoc) \<times> store" where
  "createUser newId t s =
     (let doc = \<lparr>u_id = newId, u_createdAt = t,
                 balance = \<lparr>available = 0, reserved = 0, spent = 0\<rparr>, totalTopups = 0\<rparr>
      in case insertUser doc s of
           (Inl err, s') \<Rightarrow> (Inl err, s')
         | (Inr u, s') \<Rightarrow> (Inr doc, s'))"

definition topupUserTxn :: "oid \<Rightarrow> int \<Rightarrow> txn_env \<Rightarrow> store \<Rightarrow> (error + UserDoc) \<times> store" where
  "topupUserTxn uid amt env s =
     (case findOneAndUpdate (\<lambda>u. u_id u = uid)
             (\<lambda>u. u\<lparr>balance := (balance u)\<lparr>available := incField (available (balance u)) amt\<rparr>,
                    totalTopups := incField (totalTopups u) amt\<rparr>)
             (users s) of
        (None, users') \<Rightarrow> (Inl (AppError NOT_FOUND ''User not found'' 404), s\<lparr>users := users'\<rparr>)
      | (Some user, users') \<Rightarrow>
          (Inr user,
           insertLedger [\<lparr>l_createdAt = now env, l_userId = uid, l_type = Topup, l_amount = amt,
                          l_auctionId = None, meta = []\<rparr>]
             (s\<lparr>users := users'\<rparr>)))"

definition topupUser ::
  "(nat \<Rightarrow> txn_env) \<Rightarrow> oid \<Rightarrow> int \<Rightarrow> store \<Rightarrow> (error + UserDoc) \<times> store" where
  "topupUser env uid amt s =
     (if \<not> isSafeInteger amt \<or> amt \<le> 0
      then (Inl (AppError INVALID_INPUT ''Amount must be a positive integer'' 400), s)
      else withTxn False (\<lambda>attempt. topupUserTxn uid amt (env attempt)) s)"

section \<open>Auction lifecycle (\<^verbatim>\<open>src/services/auctions.ts\<close>)\<close>

record AuctionConfigInput =
  in_roundDurationMs :: "int option"
  in_winnersPerRound :: "int option"
  in_antiSnipeWindowMs :: "int option"
  in_antiSnipeExtendMs :: "int option"
  in_maxWinsPerUser :: "int option"
  in_maxDurationMs :: "int option"
  in_maxConsecutiveEmptyRounds :: "int option"

record CreateAuctionInput =
  in_title :: string
  in_totalQuantity :: int
  in_config :: "AuctionConfigInput option"

text \<open>On an \<^typ>\<open>int\<close>, \<^verbatim>\<open>Number.isFinite\<close> holds and \<^verbatim>\<open>Math.trunc\<close> is the identity.\<close>

definition clampInt :: "int \<Rightarrow> int \<Rightarrow> int \<Rightarrow> int" where
  "clampInt v lo hi = (let iv = v in if iv < lo then lo else if iv > hi then hi else iv)"

text \<open>\<^verbatim>\<open>input.config?.field ?? dflt\<close>\<close>

definition configOr :: "AuctionConfigInput option \<Rightarrow> (AuctionConfigInput \<Rightarrow> int option) \<Rightarrow> int \<Rightarrow> int" where
  "configOr cfg field dflt =
     (case cfg of None \<Rightarrow> dflt
      | Some c \<Rightarrow> (case field c of None \<Rightarrow> dflt | Some v \<Rightarrow> v))"

text \<open>\<^verbatim>\<open>!input.title.trim()\<close>: the title is empty once its white space is trimmed.\<close>

definition isWhiteSpace :: "char \<Rightarrow> bool" where
  "isWhiteSpace c \<longleftrightarrow> of_char c \<in> {9, 10, 11, 12, 13, 32 :: nat}"

definition trimIsEmpty :: "string \<Rightarrow> bool" where
  "trimIsEmpty str \<longleftrightarrow> (\<forall>c \<in> set str. isWhiteSpace c)"

definition createAuction ::
  "oid \<Rightarrow> time \<Rightarrow> CreateAuctionInput \<Rightarrow> store \<Rightarrow> (error + AuctionDoc) \<times> store" where
  "createAuction newId t input s =
     (if trimIsEmpty (in_title input)
        then (Inl (AppError INVALID_INPUT ''Title is required'' 400), s)
      else if \<not> isSafeInteger (in_totalQuantity input) \<or> in_totalQuantity input \<le> 0
        then (Inl (AppError INVALID_INPUT ''totalQuantity must be a positive integer'' 400), s)
      else
        let cfg = \<lparr>
              roundDurationMs =
                clampInt (configOr (in_config input) in_roundDurationMs 60000) 5000 (60 * 60000),
              winnersPerRound =
                clampInt (configOr (in_config input) in_winnersPerRound 10) 1 (in_totalQuantity input),
              antiSnipeWindowMs =
                clampInt (configOr (in_config input) in_antiSnipeWindowMs 10000) 0 60000,
              antiSnipeExtendMs =
                clampInt (configOr (in_config input) in_antiSnipeExtendMs 10000) 0 60000,
              maxWinsPerUser = clampInt (configOr (in_config input) in_maxWinsPerUser 1) 1 1,
              maxDurationMs =
                clampInt (configOr (in_config input) in_maxDurationMs 0) 0 (7 * 24 * 60 * 60000),
              maxConsecutiveEmptyRounds =
                clampInt (configOr (in_config input) in_maxConsecutiveEmptyRounds 3) 0 10000\<rparr>;
            doc = \<lparr>a_id = newId, a_createdAt = t, a_updatedAt = t, title = in_title input,
                   state = Draft, startedAt = None, endsAt = None, endedAt = None,
                   endReason = None, totalQuantity = in_totalQuantity input, awardedCount = 0,
                   revenue = 0, currentRound = 0, consecutiveEmptyRounds = 0, roundState = None,
                   roundEndsAt = None, closingToken = None, closingStartedAt = None,
                   version = 0, config = cfg\<rparr>
        in case insertAuction doc s of
             (Inl err, s') \<Rightarrow> (Inl err, s')
           | (Inr u, s') \<Rightarrow> (Inr doc, s'))"

definition startAuctionTxn :: "oid \<Rightarrow> txn_env \<Rightarrow> store \<Rightarrow> (error + AuctionDoc) \<times> store" where
  "startAuctionTxn aid env s =
     (case find (\<lambda>a. a_id a = aid) (auctions s) of
        None \<Rightarrow> (Inl (AppError NOT_FOUND ''Auction not found'' 404), s)
      | Some existing \<Rightarrow>
          if state existing \<noteq> Draft
            then (Inl (AppError NOT_STARTABLE ''Auction not startable'' 409), s)
          else
            let endsAt' = now env + roundDurationMs (config existing);
                auctionEndsAt =
                  (if maxDurationMs (config existing) > 0
                   then Some (now env + maxDurationMs (config existing)) else None);
                roundEndsAt' =
                  (case auctionEndsAt of
                     Some ae \<Rightarrow> if ae < endsAt' then ae else endsAt'
                   | None \<Rightarrow> endsAt')
            in case findOneAndUpdate (\<lambda>a. a_id a = aid \<and> state a = Draft)
                      (\<lambda>a. a\<lparr>state := Running, startedAt := Some (now env),
                             endsAt := auctionEndsAt, currentRound := 1,
                             roundState := Some Open, roundEndsAt := Some roundEndsAt',
                             consecutiveEmptyRounds := 0, a_updatedAt := now env,
                             endedAt := None, endReason := None, version := version a + 1\<rparr>)
                      (auctions s) of
                 (None, auctions') \<Rightarrow>
                   (Inl (AppError NOT_STARTABLE ''Auction not startable'' 409), s\<lparr>auctions := auctions'\<rparr>)
               | (Some auction, auctions') \<Rightarrow> (Inr auction, s\<lparr>auctions := auctions'\<rparr>))"

definition startAuction ::
  "(nat \<Rightarrow> txn_env) \<Rightarrow> oid \<Rightarrow> store \<Rightarrow> (error + AuctionDoc) \<times> store" where
  "startAuction env aid s = withTxn False (\<lambda>attempt. startAuctionTxn aid (env attempt)) s"

text \<open>A \<^verbatim>\<open>for (const x of xs)\<close> loop whose body may throw.\<close>

fun forEach ::
  "('a \<Rightarrow> store \<Rightarrow> (error + unit) \<times> store) \<Rightarrow> 'a list \<Rightarrow> store \<Rightarrow> (error + unit) \<times> store" where
  "forEach body [] s = (Inr (), s)"
| "forEach body (x # xs) s =
     (case body x s of
        (Inl err, s') \<Rightarrow> (Inl err, s')
      | (Inr u, s') \<Rightarrow> forEach body xs s')"

text \<open>
  The update \<^verbatim>\<open>$inc: { 'balance.reserved': -amount, 'balance.available': amount }\<close>.
\<close>

definition unreserveFunds :: "int \<Rightarrow> UserDoc \<Rightarrow> UserDoc" where
  "unreserveFunds amt u =
     u\<lparr>balance := (balance u)\<lparr>reserved := incField (reserved (balance u)) (- amt),
                               available := incField (available (balance u)) amt\<rparr>\<rparr>"

text \<open>The body of the loop over the active bids in \<^verbatim>\<open>cancelAuction\<close>.\<close>

definition cancelBid :: "oid \<Rightarrow> time \<Rightarrow> BidDoc \<Rightarrow> store \<Rightarrow> (error + unit) \<times> store" where
  "cancelBid aid t b s =
     (case updateOne (\<lambda>x. b_id x = b_id b \<and> status x = Active)
             (\<lambda>x. x\<lparr>status := Withdrawn, updatedAt := t\<rparr>) (bids s) of
        (bidMatched, bids') \<Rightarrow>
          if bidMatched \<noteq> 1
            then (Inl (AppError INVARIANT_VIOLATION
                        ''Invariant violation: active bid missing on cancel'' 500),
                  s\<lparr>bids := bids'\<rparr>)
          else
            (case updateOne (\<lambda>u. u_id u = userId b \<and> reserved (balance u) \<ge> amount b)
                    (unreserveFunds (amount b)) (users s) of
               (userMatched, users') \<Rightarrow>
                 if userMatched \<noteq> 1
                   then (Inl (AppError INVARIANT_VIOLATION
                               ''Invariant violation: insufficient reserved on cancel'' 500),
                         s\<lparr>bids := bids', users := users'\<rparr>)
                 else
                   (Inr (),
                    insertLedger [\<lparr>l_createdAt = t, l_userId = userId b, l_type = Unreserve,
                                   l_amount = amount b, l_auctionId = Some aid, meta = []\<rparr>]
                      (s\<lparr>bids := bids', users := users'\<rparr>))))"

definition cancelAuctionTxn :: "oid \<Rightarrow> txn_env \<Rightarrow> store \<Rightarrow> (error + AuctionDoc) \<times> store" where
  "cancelAuctionTxn aid env s =
     (case findOneAndUpdate (\<lambda>a. a_id a = aid \<and> state a \<in> {Draft, Running})
             (\<lambda>a. a\<lparr>state := Cancelled, endedAt := Some (now env),
                    endReason := Some CancelledReason, a_updatedAt := now env,
                    roundState := None, roundEndsAt := None, closingToken := None,
                    closingStartedAt := None, version := version a + 1\<rparr>)
             (auctions s) of
        (None, auctions') \<Rightarrow>
          (Inl (AppError NOT_CANCELLABLE ''Auction not found or not cancellable'' 409),
           s\<lparr>auctions := auctions'\<rparr>)
      | (Some auction, auctions') \<Rightarrow>
          let s1 = s\<lparr>auctions := auctions'\<rparr>;
              activeBids = filter (\<lambda>b. auctionId b = aid \<and> status b = Active) (bids s1)
          in case forEach (cancelBid aid (now env)) activeBids s1 of
               (Inl err, s2) \<Rightarrow> (Inl err, s2)
             | (Inr u, s2) \<Rightarrow> (Inr auction, s2))"

definition cancelAuction ::
  "(nat \<Rightarrow> txn_env) \<Rightarrow> oid \<Rightarrow> store \<Rightarrow> (error + AuctionDoc) \<times> store" where
  "cancelAuction env aid s = withTxn False (\<lambda>attempt. cancelAuctionTxn aid (env attempt)) s"

section \<open>Bidding (\<^verbatim>\<open>src/services/auctions.ts\<close>)\<close>

text \<open>
  The update \<^verbatim>\<open>$inc: { 'balance.available': -delta, 'balance.reserved': delta }\<close>.
\<close>

definition reserveFunds :: "int \<Rightarrow> UserDoc \<Rightarrow> UserDoc" where
  "reserveFunds delta u =
     u\<lparr>balance := (balance u)\<lparr>available := incField (available (balance u)) (- delta),
                               reserved := incField (reserved (balance u)) delta\<rparr>\<rparr>"

text \<open>
  The three branches that write the bid in \<^verbatim>\<open>placeBid\<close>: raise an active bid,
  reactivate a withdrawn one, or insert a fresh one.
\<close>

definition writeBid ::
  "oid \<Rightarrow> oid \<Rightarrow> int \<Rightarrow> txn_env \<Rightarrow> BidDoc option \<Rightarrow> store \<Rightarrow> (error + BidDoc) \<times> store" where
  "writeBid aid uid newAmount env existing s =
     (case existing of
        Some e \<Rightarrow>
          if status e = Active then
            (case findOneAndUpdate (\<lambda>x. b_id x = b_id e \<and> status x = Active)
                    (\<lambda>x. x\<lparr>amount := newAmount, lastBidAt := now env, updatedAt := now env\<rparr>)
                    (bids s) of
               (None, bids') \<Rightarrow>
                 (Inl (AppError INVARIANT_VIOLATION
                         ''Invariant violation: failed to update bid'' 500), s\<lparr>bids := bids'\<rparr>)
             | (Some upd, bids') \<Rightarrow> (Inr upd, s\<lparr>bids := bids'\<rparr>))
          else
            (case findOneAndUpdate (\<lambda>x. b_id x = b_id e \<and> status x = Withdrawn)
                    (\<lambda>x. x\<lparr>status := Active, amount := newAmount, lastBidAt := now env,
                           updatedAt := now env\<rparr>)
                    (bids s) of
               (None, bids') \<Rightarrow>
                 (Inl (AppError INVARIANT_VIOLATION
                         ''Invariant violation: failed to reactivate bid'' 500), s\<lparr>bids := bids'\<rparr>)
             | (Some upd, bids') \<Rightarrow> (Inr upd, s\<lparr>bids := bids'\<rparr>))
      | None \<Rightarrow>
          let bid = \<lparr>userId = uid, amount = newAmount, lastBidAt = now env,
                     b_id = newObjectId env, auctionId = aid, status = Active,
                     createdAt = now env, updatedAt = now env, settlement = None\<rparr>
          in case insertBid bid s of
               (Inl err, s') \<Rightarrow> (Inl err, s')
             | (Inr u, s') \<Rightarrow> (Inr bid, s'))"

text \<open>
  The anti-snipe computation of \<^verbatim>\<open>placeBid\<close>: the value handed to
  \<^verbatim>\<open>$max: { roundEndsAt: newEndsAt }\<close>.
\<close>

definition antiSnipeEndsAt :: "AuctionDoc \<Rightarrow> time \<Rightarrow> time \<Rightarrow> time" where
  "antiSnipeEndsAt auction curRoundEndsAt t =
     (let newEndsAt0 =
            (case endsAt auction of
               Some e \<Rightarrow> if curRoundEndsAt > e then e else curRoundEndsAt
             | None \<Rightarrow> curRoundEndsAt);
          remainingMs = curRoundEndsAt - t
      in if remainingMs \<le> antiSnipeWindowMs (config auction) then
           let candidate0 = t + antiSnipeExtendMs (config auction);
               candidate =
                 (case endsAt auction of
                    Some e \<Rightarrow> if candidate0 > e then e else candidate0
                  | None \<Rightarrow> candidate0)
           in if candidate > newEndsAt0 then candidate else newEndsAt0
         else newEndsAt0)"

text \<open>\<^verbatim>\<open>$max\<close> on a date field: the field is set when it is absent.\<close>

definition maxMerge :: "time option \<Rightarrow> time \<Rightarrow> time option" where
  "maxMerge cur v = (case cur of None \<Rightarrow> Some v | Some c \<Rightarrow> Some (max c v))"

text \<open>
  The writes of \<^verbatim>\<open>placeBid\<close>, once the checks have passed: reserve \<open>delta\<close> on the
  user, write the bid, append the ledger entry, extend the round.
\<close>

definition placeBidWrites ::
  "oid \<Rightarrow> oid \<Rightarrow> int \<Rightarrow> txn_env \<Rightarrow> AuctionDoc \<Rightarrow> time \<Rightarrow> BidDoc option \<Rightarrow> int \<Rightarrow> store
     \<Rightarrow> (error + AuctionDoc \<times> BidDoc) \<times> store" where
  "placeBidWrites aid uid newAmount env auction curRoundEndsAt existing delta s =
     (case findOneAndUpdate (\<lambda>u. u_id u = uid \<and> available (balance u) \<ge> delta)
             (reserveFunds delta) (users s) of
        (None, users') \<Rightarrow>
          (Inl (AppError INSUFFICIENT_FUNDS ''Insufficient funds or user not found'' 409),
           s\<lparr>users := users'\<rparr>)
      | (Some userRes, users') \<Rightarrow>
          (case writeBid aid uid newAmount env existing (s\<lparr>users := users'\<rparr>) of
             (Inl err, s2) \<Rightarrow> (Inl err, s2)
           | (Inr bid, s2) \<Rightarrow>
               let s3 = insertLedger
                          [\<lparr>l_createdAt = now env, l_userId = uid, l_type = Reserve,
                            l_amount = delta, l_auctionId = Some aid,
                            meta = [(''bidId'', MetaString (b_id bid))]\<rparr>] s2;
                   newEndsAt = antiSnipeEndsAt auction curRoundEndsAt (now env)
               in case findOneAndUpdate
                         (\<lambda>a. a_id a = aid \<and> state a = Running \<and> roundState a = Some Open)
                         (\<lambda>a. a\<lparr>a_updatedAt := now env,
                                roundEndsAt := maxMerge (roundEndsAt a) newEndsAt,
                                version := version a + 1\<rparr>)
                         (auctions s3) of
                    (None, auctions') \<Rightarrow>
                      (Inl (AppError NOT_OPEN ''Auction is not open for bids'' 409),
                       s3\<lparr>auctions := auctions'\<rparr>)
                  | (Some updatedAuction, auctions') \<Rightarrow>
                      (Inr (updatedAuction, bid), s3\<lparr>auctions := auctions'\<rparr>)))"

text \<open>
  \<^verbatim>\<open>auction.state !== 'running' || auction.roundState !== 'open' || !auction.roundEndsAt\<close>
  fails with \<open>None\<close>; otherwise the round's end is returned.
\<close>

definition openRoundEndsAt :: "AuctionDoc \<Rightarrow> time option" where
  "openRoundEndsAt auction =
     (if state auction \<noteq> Running \<or> roundState auction \<noteq> Some Open then None
      else roundEndsAt auction)"

definition placeBidTxn ::
  "oid \<Rightarrow> oid \<Rightarrow> int \<Rightarrow> txn_env \<Rightarrow> store \<Rightarrow> (error + AuctionDoc \<times> BidDoc) \<times> store" where
  "placeBidTxn aid uid newAmount env s =
     (case find (\<lambda>a. a_id a = aid) (auctions s) of
        None \<Rightarrow> (Inl (AppError NOT_FOUND ''Auction not found'' 404), s)
      | Some auction \<Rightarrow>
         (case openRoundEndsAt auction of
            None \<Rightarrow> (Inl (AppError NOT_OPEN ''Auction is not open for bids'' 409), s)
          | Some curRoundEndsAt \<Rightarrow>
              if now env \<ge> curRoundEndsAt
                then (Inl (AppError ROUND_ENDED ''Round already ended'' 409), s)
              else
                let existing = find (\<lambda>b. auctionId b = aid \<and> userId b = uid) (bids s);
                    existingActive = (map_option status existing = Some Active)
                in if existing \<noteq> None \<and> \<not> existingActive
                        \<and> map_option status existing \<noteq> Some Withdrawn
                     then (Inl (AppError BID_NOT_ACTIVE ''Bid is not active'' 409), s)
                   else
                     let oldAmount =
                           (case existing of
                              Some e \<Rightarrow> if status e = Active then amount e else 0
                            | None \<Rightarrow> 0)
                     in if newAmount \<le> oldAmount
                          then (Inl (AppError INVALID_INPUT
                                       ''New amount must be greater than previous amount'' 400), s)
                        else placeBidWrites aid uid newAmount env auction curRoundEndsAt existing
                               (newAmount - oldAmount) s))"

definition placeBid ::
  "(nat \<Rightarrow> txn_env) \<Rightarrow> oid \<Rightarrow> oid \<Rightarrow> int \<Rightarrow> store \<Rightarrow> (error + AuctionDoc \<times> BidDoc) \<times> store" where
  "placeBid env aid uid newAmount s =
     (if \<not> isSafeInteger newAmount \<or> newAmount \<le> 0
      then (Inl (AppError INVALID_INPUT ''Amount must be a positive integer'' 400), s)
      else withTxn True (\<lambda>attempt. placeBidTxn aid uid newAmount (env attempt)) s)"

definition withdrawBidTxn ::
  "oid \<Rightarrow> oid \<Rightarrow> txn_env \<Rightarrow> store \<Rightarrow> (error + BidDoc) \<times> store" where
  "withdrawBidTxn aid uid env s =
     (case find (\<lambda>a. a_id a = aid) (auctions s) of
        None \<Rightarrow> (Inl (AppError NOT_FOUND ''Auction not found'' 404), s)
      | Some auction \<Rightarrow>
         (case openRoundEndsAt auction of
            None \<Rightarrow> (Inl (AppError NOT_OPEN ''Auction is not open for withdraw'' 409), s)
          | Some curRoundEndsAt \<Rightarrow>
              if now env \<ge> curRoundEndsAt
                then (Inl (AppError ROUND_ENDED ''Round already ended'' 409), s)
              else
                (case find (\<lambda>b. auctionId b = aid \<and> userId b = uid \<and> status b = Active) (bids s) of
                   None \<Rightarrow> (Inl (AppError BID_NOT_ACTIVE ''Active bid not found'' 409), s)
                 | Some bid \<Rightarrow>
                    (case updateOne (\<lambda>x. b_id x = b_id bid \<and> status x = Active)
                            (\<lambda>x. x\<lparr>status := Withdrawn, updatedAt := now env\<rparr>) (bids s) of
                       (bidMatched, bids') \<Rightarrow>
                         if bidMatched \<noteq> 1
                           then (Inl (AppError BID_NOT_ACTIVE ''Active bid not found'' 409),
                                 s\<lparr>bids := bids'\<rparr>)
                         else
                           (case findOneAndUpdate
                                   (\<lambda>u. u_id u = uid \<and> reserved (balance u) \<ge> amount bid)
                                   (unreserveFunds (amount bid)) (users s) of
                              (None, users') \<Rightarrow>
                                (Inl (AppError INVARIANT_VIOLATION
                                   ''Invariant violation: user not found or inconsistent balance'' 500),
                                 s\<lparr>bids := bids', users := users'\<rparr>)
                            | (Some userRes, users') \<Rightarrow>
                                let s3 = insertLedger
                                           [\<lparr>l_createdAt = now env, l_userId = uid,
                                             l_type = Unreserve, l_amount = amount bid,
                                             l_auctionId = Some aid,
                                             meta = [(''bidId'', MetaString (b_id bid))]\<rparr>]
                                           (s\<lparr>bids := bids', users := users'\<rparr>)
                                in case updateOne (\<lambda>a. a_id a = aid)
                                          (\<lambda>a. a\<lparr>a_updatedAt := now env, version := version a + 1\<rparr>)
                                          (auctions s3) of
                                     (auMatched, auctions') \<Rightarrow>
                                       if auMatched \<noteq> 1
                                         then (Inl (AppError NOT_FOUND ''Auction not found'' 404),
                                               s3\<lparr>auctions := auctions'\<rparr>)
                                       else (Inr (bid\<lparr>status := Withdrawn, updatedAt := now env\<rparr>),
                                             s3\<lparr>auctions := auctions'\<rparr>))))))"

definition withdrawBid ::
  "(nat \<Rightarrow> txn_env) \<Rightarrow> oid \<Rightarrow> oid \<Rightarrow> store \<Rightarrow> (error + BidDoc) \<times> store" where
  "withdrawBid env aid uid s = withTxn False (\<lambda>attempt. withdrawBidTxn aid uid (env attempt)) s"

subsection \<open>Snapshot\<close>

text \<open>The query \<^verbatim>\<open>.sort({ amount: -1, lastBidAt: 1, userId: 1 })\<close> of the store.\<close>

definition sortByRank :: "BidDoc list \<Rightarrow> BidDoc list" where
  "sortByRank bs = sort_key rankKey bs"

record LeaderboardRow =
  lb_userId :: oid
  lb_amount :: int
  lb_lastBidAt :: time

record MyBid =
  my_status :: BidStatus
  my_amount :: int
  my_lastBidAt :: time

record Snapshot =
  snap_now :: time
  snap_auction :: AuctionDoc
  timeRemainingMs :: "int option"
  remainingQuantity :: int
  leaderboard :: "LeaderboardRow list"
  myBid :: "MyBid option"
  estimatedClearingPrice :: "int option"
  recentRounds :: "RoundDoc list"

text \<open>The number \<open>k\<close> of winners the snapshot estimates for.\<close>

definition snapshotK :: "AuctionDoc \<Rightarrow> int" where
  "snapshotK auction =
     (let remainingQuantity = max 0 (totalQuantity auction - awardedCount auction)
      in if state auction = Running
         then min remainingQuantity (winnersPerRound (config auction)) else 0)"

definition getAuctionSnapshot :: "time \<Rightarrow> oid \<Rightarrow> oid option \<Rightarrow> store \<Rightarrow> error + Snapshot" where
  "getAuctionSnapshot t aid optUserId s =
     (case find (\<lambda>a. a_id a = aid) (auctions s) of
        None \<Rightarrow> Inl (AppError NOT_FOUND ''Auction not found'' 404)
      | Some auction \<Rightarrow>
          let timeRemaining =
                (case (if state auction = Running \<and> roundState auction = Some Open
                       then roundEndsAt auction else None) of
                   Some r \<Rightarrow> Some (max 0 (r - t))
                 | None \<Rightarrow> None);
              remainingQty = max 0 (totalQuantity auction - awardedCount auction);
              k = snapshotK auction;
              leaderboardLimit = max 20 (min 200 k);
              activeBids =
                take (nat leaderboardLimit)
                  (sortByRank (filter (\<lambda>b. auctionId b = aid \<and> status b = Active) (bids s)));
              board =
                map (\<lambda>b. \<lparr>lb_userId = userId b, lb_amount = amount b, lb_lastBidAt = lastBidAt b\<rparr>)
                  (take 20 activeBids);
              myBidDoc =
                (case optUserId of
                   Some uid \<Rightarrow> find (\<lambda>b. auctionId b = aid \<and> userId b = uid) (bids s)
                 | None \<Rightarrow> None);
              mine =
                map_option
                  (\<lambda>b. \<lparr>my_status = status b, my_amount = amount b, my_lastBidAt = lastBidAt b\<rparr>)
                  myBidDoc;
              estimated =
                (if k > 0 \<and> int (length activeBids) \<ge> k
                 then Some (amount (activeBids ! nat (k - 1))) else None);
              recent =
                take 5 (rev (sort_key roundNumber (filter (\<lambda>r. r_auctionId r = aid) (rounds s))))
          in Inr \<lparr>snap_now = t, snap_auction = auction, timeRemainingMs = timeRemaining,
                  remainingQuantity = remainingQty, leaderboard = board, myBid = mine,
                  estimatedClearingPrice = estimated, recentRounds = rev recent\<rparr>)"

section \<open>Round engine (\<^verbatim>\<open>src/services/auctionEngine.ts\<close>)\<close>

text \<open>
  The compare-and-set of \<^verbatim>\<open>tick\<close> that moves a due round from \<open>open\<close> to \<open>closing\<close>
  under a fresh token (\<^verbatim>\<open>closeGraceMs = 250\<close>). Leader election and the timer of the
  engine are not part of the model: \<open>lockDueRound\<close> and \<open>settleClosingAuction\<close> are the
  two steps a tick is made of.
\<close>

definition closeGraceMs :: int where
  "closeGraceMs = 250"

definition isDue :: "time \<Rightarrow> AuctionDoc \<Rightarrow> bool" where
  "isDue threshold a \<longleftrightarrow>
     (case roundEndsAt a of Some r \<Rightarrow> r \<le> threshold | None \<Rightarrow> False)
     \<or> (case endsAt a of Some e \<Rightarrow> e \<le> threshold | None \<Rightarrow> False)"

definition lockDueRound :: "oid \<Rightarrow> string \<Rightarrow> time \<Rightarrow> store \<Rightarrow> AuctionDoc option \<times> store" where
  "lockDueRound aid token t s =
     (let threshold = t - closeGraceMs
      in case findOneAndUpdate
                (\<lambda>a. a_id a = aid \<and> state a = Running \<and> roundState a = Some Open
                      \<and> isDue threshold a)
                (\<lambda>a. a\<lparr>roundState := Some Closing, closingToken := Some token,
                       closingStartedAt := Some t, a_updatedAt := t, version := version a + 1\<rparr>)
                (auctions s) of
           (lock, auctions') \<Rightarrow> (lock, s\<lparr>auctions := auctions'\<rparr>))"

text \<open>The objects of \<^verbatim>\<open>winners\<close> in \<^verbatim>\<open>settleClosingAuction\<close>: a round winner and its bid.\<close>

record SettleWinner = RoundWinner +
  w_bidId :: oid

definition settleWinners :: "AuctionDoc \<Rightarrow> BidDoc list \<Rightarrow> int \<Rightarrow> SettleWinner list" where
  "settleWinners auction winnerBids price =
     map (\<lambda>(idx, b).
            \<lparr>w_userId = userId b, w_amount = amount b,
             w_giftSerial = awardedCount auction + int idx + 1,
             w_paid = price, w_refunded = amount b - price, w_bidId = b_id b\<rparr>)
         (enumerate 0 winnerBids)"

definition roundWinnerOf :: "SettleWinner \<Rightarrow> RoundWinner" where
  "roundWinnerOf w =
     \<lparr>w_userId = w_userId w, w_amount = w_amount w, w_giftSerial = w_giftSerial w,
      w_paid = w_paid w, w_refunded = w_refunded w\<rparr>"

text \<open>
  The update \<^verbatim>\<open>$inc: { 'balance.reserved': -w.amount, 'balance.spent': w.paid,
  'balance.available': w.refunded }\<close>.
\<close>

definition chargeWinner :: "SettleWinner \<Rightarrow> UserDoc \<Rightarrow> UserDoc" where
  "chargeWinner w u =
     u\<lparr>balance := (balance u)\<lparr>reserved := incField (reserved (balance u)) (- w_amount w),
                               spent := incField (spent (balance u)) (w_paid w),
                               available := incField (available (balance u)) (w_refunded w)\<rparr>\<rparr>"

text \<open>The body of the loop \<^verbatim>\<open>for (const w of winners)\<close>.\<close>

definition settleWinner ::
  "oid \<Rightarrow> AuctionDoc \<Rightarrow> time \<Rightarrow> int \<Rightarrow> SettleWinner \<Rightarrow> store \<Rightarrow> (error + unit) \<times> store" where
  "settleWinner aid auction t price w s =
     (case find (\<lambda>x. b_id x = w_bidId w \<and> status x = Active) (bids s) of
        None \<Rightarrow> (Inl (JsError ''Invariant violation: winner bid not active''), s)
      | Some target \<Rightarrow>
          if giftSerialTaken target (w_giftSerial w) (bids s)
            then (Inl (duplicateKey [''auctionId'', ''settlement.giftSerial'']), s)
          else
            let s1 = s\<lparr>bids :=
                       updateFirst (\<lambda>x. b_id x = w_bidId w \<and> status x = Active)
                         (\<lambda>x. x\<lparr>status := Won, updatedAt := t,
                                settlement := Some \<lparr>wonRound = currentRound auction,
                                   giftSerial = w_giftSerial w, clearingPrice = price,
                                   paid = w_paid w, refunded = w_refunded w, settledAt = t\<rparr>\<rparr>)
                         (bids s)\<rparr>
            in case updateOne (\<lambda>u. u_id u = w_userId w \<and> reserved (balance u) \<ge> w_amount w)
                      (chargeWinner w) (users s1) of
                 (userMatched, users') \<Rightarrow>
                   if userMatched \<noteq> 1
                     then (Inl (JsError ''Invariant violation: insufficient reserved balance''),
                           s1\<lparr>users := users'\<rparr>)
                   else
                     (Inr (),
                      insertLedger
                        (\<lparr>l_createdAt = t, l_userId = w_userId w, l_type = Spend,
                          l_amount = w_paid w, l_auctionId = Some aid,
                          meta = [(''round'', MetaNumber (currentRound auction)),
                                  (''giftSerial'', MetaNumber (w_giftSerial w))]\<rparr>
                         # (if w_refunded w > 0
                            then [\<lparr>l_createdAt = t, l_userId = w_userId w, l_type = Refund,
                                   l_amount = w_refunded w, l_auctionId = Some aid,
                                   meta = [(''round'', MetaNumber (currentRound auction)),
                                           (''giftSerial'', MetaNumber (w_giftSerial w))]\<rparr>]
                            else []))
                        (s1\<lparr>users := users'\<rparr>)))"

text \<open>The body of the loop that refunds the remaining active bids when the auction ends.\<close>

definition refundLostBid :: "oid \<Rightarrow> time \<Rightarrow> BidDoc \<Rightarrow> store \<Rightarrow> (error + unit) \<times> store" where
  "refundLostBid aid t b s =
     (case updateOne (\<lambda>x. b_id x = b_id b \<and> status x = Active)
             (\<lambda>x. x\<lparr>status := Lost, updatedAt := t\<rparr>) (bids s) of
        (bidMatched, bids') \<Rightarrow>
          if bidMatched \<noteq> 1
            then (Inl (JsError ''Invariant violation: active bid missing on refund''),
                  s\<lparr>bids := bids'\<rparr>)
          else
            (case updateOne (\<lambda>u. u_id u = userId b \<and> reserved (balance u) \<ge> amount b)
                    (unreserveFunds (amount b)) (users s) of
               (userMatched, users') \<Rightarrow>
                 if userMatched \<noteq> 1
                   then (Inl (JsError ''Invariant violation: insufficient reserved on refund''),
                         s\<lparr>bids := bids', users := users'\<rparr>)
                 else
                   (Inr (),
                    insertLedger [\<lparr>l_createdAt = t, l_userId = userId b, l_type = Unreserve,
                                   l_amount = amount b, l_auctionId = Some aid,
                                   meta = [(''reason'', MetaString ''auctionEnded'')]\<rparr>]
                      (s\<lparr>bids := bids', users := users'\<rparr>))))"

datatype LogLine = LogInfo string | LogError string

text \<open>
  The end of \<^verbatim>\<open>settleClosingAuction\<close>'s transaction, after the winners are settled:
  either the auction ends and every remaining active bid is refunded, or the next round
  opens.
\<close>

definition finishRound ::
  "oid \<Rightarrow> string \<Rightarrow> AuctionDoc \<Rightarrow> time \<Rightarrow> int \<Rightarrow> int \<Rightarrow> int \<Rightarrow> store
     \<Rightarrow> (error + LogLine list) \<times> store" where
  "finishRound aid token auction t remainingQty price winnersLength s =
     (let newAwardedCount = awardedCount auction + winnersLength;
          soldOut = (newAwardedCount \<ge> totalQuantity auction);
          forcedByDuration = (case endsAt auction of Some e \<Rightarrow> t \<ge> e | None \<Rightarrow> False);
          emptyRound = (remainingQty > 0 \<and> winnersLength = 0);
          newConsecutiveEmptyRounds =
            (if emptyRound then consecutiveEmptyRounds auction + 1 else 0);
          forcedByEmptyRounds =
            (emptyRound \<and> maxConsecutiveEmptyRounds (config auction) > 0
             \<and> newConsecutiveEmptyRounds \<ge> maxConsecutiveEmptyRounds (config auction));
          shouldEnd = (soldOut \<or> forcedByDuration \<or> forcedByEmptyRounds);
          reason = (if soldOut then SoldOut else if forcedByDuration then MaxDuration
                    else EmptyRounds)
      in if shouldEnd then
           (case forEach (refundLostBid aid t)
                   (filter (\<lambda>b. auctionId b = aid \<and> status b = Active) (bids s)) s of
              (Inl err, s1) \<Rightarrow> (Inl err, s1)
            | (Inr u, s1) \<Rightarrow>
                (case updateOne
                        (\<lambda>a. a_id a = aid \<and> state a = Running \<and> closingToken a = Some token)
                        (\<lambda>a. a\<lparr>state := Ended, endedAt := Some t, endReason := Some reason,
                               awardedCount := newAwardedCount,
                               consecutiveEmptyRounds := newConsecutiveEmptyRounds,
                               revenue := revenue auction + price * winnersLength,
                               a_updatedAt := t, roundState := None, roundEndsAt := None,
                               closingToken := None, closingStartedAt := None,
                               version := version a + 1\<rparr>)
                        (auctions s1) of
                   (auMatched, auctions') \<Rightarrow>
                     if auMatched \<noteq> 1
                       then (Inl (JsError ''Invariant violation: auction not updated on end''),
                             s1\<lparr>auctions := auctions'\<rparr>)
                     else (Inr [LogInfo ''auction ended''], s1\<lparr>auctions := auctions'\<rparr>)))
         else
           let nextEndsAt0 = t + roundDurationMs (config auction);
               nextEndsAt =
                 (case endsAt auction of
                    Some e \<Rightarrow> if e < nextEndsAt0 then e else nextEndsAt0
                  | None \<Rightarrow> nextEndsAt0)
           in case updateOne
                     (\<lambda>a. a_id a = aid \<and> state a = Running \<and> closingToken a = Some token)
                     (\<lambda>a. a\<lparr>awardedCount := newAwardedCount,
                            revenue := revenue auction + price * winnersLength,
                            currentRound := currentRound auction + 1,
                            consecutiveEmptyRounds := newConsecutiveEmptyRounds,
                            roundState := Some Open, roundEndsAt := Some nextEndsAt,
                            a_updatedAt := t, closingToken := None, closingStartedAt := None,
                            version := version a + 1\<rparr>)
                     (auctions s) of
                (auMatched, auctions') \<Rightarrow>
                  if auMatched \<noteq> 1
                    then (Inl (JsError ''Invariant violation: auction not updated for next round''),
                          s\<lparr>auctions := auctions'\<rparr>)
                  else (Inr [], s\<lparr>auctions := auctions'\<rparr>))"

text \<open>The bids that win the round, and the price they pay.\<close>

definition roundWinnerBids :: "oid \<Rightarrow> AuctionDoc \<Rightarrow> store \<Rightarrow> BidDoc list" where
  "roundWinnerBids aid auction s =
     (let remainingQty = max 0 (totalQuantity auction - awardedCount auction);
          winnersCount = min (winnersPerRound (config auction)) remainingQty
      in if winnersCount > 0
         then take (nat winnersCount)
                (sortByRank (filter (\<lambda>b. auctionId b = aid \<and> status b = Active) (bids s)))
         else [])"

definition roundClearingPrice :: "BidDoc list \<Rightarrow> int" where
  "roundClearingPrice winnerBids =
     (if length winnerBids = 0 then 0 else amount (winnerBids ! (length winnerBids - 1)))"

definition settleTxn ::
  "oid \<Rightarrow> string \<Rightarrow> txn_env \<Rightarrow> store \<Rightarrow> (error + LogLine list) \<times> store" where
  "settleTxn aid token env s =
     (case find (\<lambda>a. a_id a = aid \<and> state a = Running \<and> roundState a = Some Closing
                     \<and> closingToken a = Some token) (auctions s) of
        None \<Rightarrow> (Inr [], s)
      | Some auction \<Rightarrow>
          let remainingQty = max 0 (totalQuantity auction - awardedCount auction);
              winnerBids = roundWinnerBids aid auction s;
              price = roundClearingPrice winnerBids;
              ws = settleWinners auction winnerBids price
          in case insertRound
                    \<lparr>r_auctionId = aid, roundNumber = currentRound auction, r_endedAt = now env,
                     r_clearingPrice = price, winners = map roundWinnerOf ws\<rparr> s of
               (Inl err, s1) \<Rightarrow> (Inl err, s1)
             | (Inr u, s1) \<Rightarrow>
                 (case forEach (settleWinner aid auction (now env) price) ws s1 of
                    (Inl err, s2) \<Rightarrow> (Inl err, s2)
                  | (Inr u, s2) \<Rightarrow>
                      finishRound aid token auction (now env) remainingQty price
                        (int (length ws)) s2))"

text \<open>
  \<^verbatim>\<open>settleClosingAuction\<close> returns nothing and throws nothing: the \<^verbatim>\<open>catch\<close> logs what
  the transaction threw. The model returns the log lines and the store.
\<close>

definition settleClosingAuction ::
  "(nat \<Rightarrow> txn_env) \<Rightarrow> oid \<Rightarrow> string \<Rightarrow> store \<Rightarrow> LogLine list \<times> store" where
  "settleClosingAuction env aid token s =
     (case withTxn False (\<lambda>attempt. settleTxn aid token (env attempt)) s of
        (Inr logs, s') \<Rightarrow> (logs, s')
      | (Inl err, s') \<Rightarrow>
          if isDuplicateRoundSettlement err then ([LogInfo ''round already settled''], s')
          else ([LogError ''settleClosingAuction failed''], s'))"

section \<open>Operations and runs\<close>

text \<open>
  The operations that write to the store. \<open>exec\<close> is the store an operation leaves,
  whether it returns or throws; \<open>run\<close> executes a sequence of them.
\<close>

datatype op =
    CreateUser oid time
  | TopupUser "nat \<Rightarrow> txn_env" oid int
  | CreateAuction oid time CreateAuctionInput
  | StartAuction "nat \<Rightarrow> txn_env" oid
  | CancelAuction "nat \<Rightarrow> txn_env" oid
  | PlaceBid "nat \<Rightarrow> txn_env" oid oid int
  | WithdrawBid "nat \<Rightarrow> txn_env" oid oid
  | LockDueRound oid string time
  | SettleClosingAuction "nat \<Rightarrow> txn_env" oid string

fun exec :: "op \<Rightarrow> store \<Rightarrow> store" where
  "exec (CreateUser newId t) s = snd (createUser newId t s)"
| "exec (TopupUser env uid amt) s = snd (topupUser env uid amt s)"
| "exec (CreateAuction newId t input) s = snd (createAuction newId t input s)"
| "exec (StartAuction env aid) s = snd (startAuction env aid s)"
| "exec (CancelAuction env aid) s = snd (cancelAuction env aid s)"
| "exec (PlaceBid env aid uid newAmount) s = snd (placeBid env aid uid newAmount s)"
| "exec (WithdrawBid env aid uid) s = snd (withdrawBid env aid uid s)"
| "exec (LockDueRound aid token t) s = snd (lockDueRound aid token t s)"
| "exec (SettleClosingAuction env aid token) s = snd (settleClosingAuction env aid token s)"

definition run :: "op list \<Rightarrow> store \<Rightarrow> store" where
  "run ops s = foldl (\<lambda>st opn. exec opn st) s ops"

section \<open>Properties of stores\<close>

text \<open>
  The balance of a user is conserved: what was ever topped up is available, reserved or
  spent, and none of the three parts is negative.
\<close>

definition userBalanced :: "UserDoc \<Rightarrow> bool" where
  "userBalanced u \<longleftrightarrow>
     totalTopups u = available (balance u) + reserved (balance u) + spent (balance u)
     \<and> 0 \<le> available (balance u) \<and> 0 \<le> reserved (balance u) \<and> 0 \<le> spent (balance u)"

text \<open>
  A user whose top-ups sum to a safe integer (at most \<open>2\<^sup>5\<^sup>3 - 1\<close>) is balanced.
\<close>

definition userConserved :: "UserDoc \<Rightarrow> bool" where
  "userConserved u \<longleftrightarrow> (totalTopups u \<le> 9007199254740991 \<longrightarrow> userBalanced u)"

text \<open>Every such user is balanced and every bid has a positive amount.\<close>

definition moneyInv :: "store \<Rightarrow> bool" where
  "moneyInv s \<longleftrightarrow> (\<forall>u \<in> set (users s). userConserved u) \<and> (\<forall>b \<in> set (bids s). 0 < amount b)"

text \<open>The amount the user has on an active bid in the auction, 0 when there is none.\<close>

definition activeAmount :: "oid \<Rightarrow> oid \<Rightarrow> store \<Rightarrow> int" where
  "activeAmount aid uid s =
     (case find (\<lambda>b. auctionId b = aid \<and> userId b = uid) (bids s) of
        Some e \<Rightarrow> if status e = Active then amount e else 0
      | None \<Rightarrow> 0)"

text \<open>
  The current round of an auction with a deadline does not end after the deadline.
\<close>

definition auctionClamped :: "AuctionDoc \<Rightarrow> bool" where
  "auctionClamped a \<longleftrightarrow>
     (case roundEndsAt a of
        Some r \<Rightarrow> (case endsAt a of Some e \<Rightarrow> r \<le> e | None \<Rightarrow> True)
      | None \<Rightarrow> True)"

definition clampInv :: "store \<Rightarrow> bool" where
  "clampInv s \<longleftrightarrow> (\<forall>a \<in> set (auctions s). auctionClamped a)"

text \<open>Auction ids are unique.\<close>

definition auctionIdsDistinct :: "store \<Rightarrow> bool" where
  "auctionIdsDistinct s \<longleftrightarrow> distinct (map a_id (auctions s))"

text \<open>The invariant of the auctions that the engine and the bidding operations keep.\<close>

definition roundInv :: "store \<Rightarrow> bool" where
  "roundInv s \<longleftrightarrow> clampInv s \<and> auctionIdsDistinct s"


text \<open>
  The bid document of a winner after \<open>settleWinner\<close>, the gift serials of the won bids of an
  auction, and the fields of a bid that settlement never writes.
\<close>

definition markWon :: "AuctionDoc \<Rightarrow> time \<Rightarrow> int \<Rightarrow> SettleWinner \<Rightarrow> BidDoc \<Rightarrow> BidDoc" where
  "markWon auction t price w x =
     x\<lparr>status := Won, updatedAt := t,
       settlement := Some \<lparr>wonRound = currentRound auction, giftSerial = w_giftSerial w,
                            clearingPrice = price, paid = w_paid w, refunded = w_refunded w,
                            settledAt = t\<rparr>\<rparr>"

definition wonSerials :: "BidDoc list \<Rightarrow> oid \<Rightarrow> int list" where
  "wonSerials bs aid =
     map (\<lambda>b. case settlement b of Some st \<Rightarrow> giftSerial st | None \<Rightarrow> 0)
       (filter (\<lambda>b. auctionId b = aid \<and> status b = Won) bs)"

definition bidKey :: "BidDoc \<Rightarrow> oid \<times> oid \<times> oid \<times> int" where
  "bidKey b = (b_id b, auctionId b, userId b, amount b)"

text \<open>
  The gift serials of an auction depend on the id and \<open>awardedCount\<close> of the auction and,
  for each bid, on its id, its auction and the serial it has won. Two stores with the
  same such views have the same serials.
\<close>

definition auctionView :: "AuctionDoc \<Rightarrow> oid \<times> int" where
  "auctionView a = (a_id a, awardedCount a)"

definition bidView :: "BidDoc \<Rightarrow> oid \<times> oid \<times> int option" where
  "bidView b =
     (b_id b, auctionId b,
      if status b = Won then Some (case settlement b of Some st \<Rightarrow> giftSerial st | None \<Rightarrow> 0)
      else None)"

definition sameSerials :: "store \<Rightarrow> store \<Rightarrow> bool" where
  "sameSerials s s' \<longleftrightarrow>
     map auctionView (auctions s') = map auctionView (auctions s)
     \<and> map bidView (bids s') = map bidView (bids s)"

text \<open>
  Auction ids and bid ids are unique, every bid belongs to an auction of the store, and
  the serials of the won bids of an auction are the numbers from 1 to its \<open>awardedCount\<close>,
  each once.
\<close>

definition serialInv :: "store \<Rightarrow> bool" where
  "serialInv s \<longleftrightarrow>
     distinct (map a_id (auctions s)) \<and> distinct (map b_id (bids s))
     \<and> (\<forall>b \<in> set (bids s). auctionId b \<in> a_id ` set (auctions s))
     \<and> (\<forall>a \<in> set (auctions s).
           0 \<le> awardedCount a
           \<and> mset (wonSerials (bids s) (a_id a)) = mset [1..awardedCount a])"

section \<open>Runs and stores used as examples\<close>

text \<open>
  Three users top up 1000 each; an auction of one gift with one winner per round and
  rounds of five seconds is started at time 100 (\<open>setupOps\<close>); the users bid 100, 90 and
  80; the engine locks the round once it is due and settles it (\<open>scenarioOps\<close>).
\<close>

definition envAt :: "time \<Rightarrow> oid \<Rightarrow> nat \<Rightarrow> txn_env" where
  "envAt t i = (\<lambda>attempt. \<lparr>now = t, newObjectId = i\<rparr>)"

definition setupOps :: "op list" where
  "setupOps =
     [CreateUser ''u1'' 0, TopupUser (envAt 1 []) ''u1'' 1000,
      CreateUser ''u2'' 2, TopupUser (envAt 3 []) ''u2'' 1000,
      CreateUser ''u3'' 4, TopupUser (envAt 5 []) ''u3'' 1000,
      CreateAuction ''a1'' 10
        \<lparr>in_title = ''gift'', in_totalQuantity = 1,
         in_config = Some \<lparr>in_roundDurationMs = Some 5000, in_winnersPerRound = Some 1,
                           in_antiSnipeWindowMs = None, in_antiSnipeExtendMs = None,
                           in_maxWinsPerUser = None, in_maxDurationMs = None,
                           in_maxConsecutiveEmptyRounds = None\<rparr>\<rparr>,
      StartAuction (envAt 100 []) ''a1'']"


text \<open>The store after the first bid of the run.\<close>

definition biddingStore :: store where
  "biddingStore = run (setupOps @ [PlaceBid (envAt 200 ''b1'') ''a1'' ''u1'' 100]) emptyStore"

text \<open>A store with an ended auction and a bid that is still active.\<close>

definition endedStore :: store where
  "endedStore =
     \<lparr>users = [],
      auctions =
        [\<lparr>a_id = ''a1'', a_createdAt = 10, a_updatedAt = 10, title = ''gift'', state = Ended,
          startedAt = Some 100, endsAt = None, endedAt = Some 900, endReason = Some SoldOut,
          totalQuantity = 1, awardedCount = 1, revenue = 100, currentRound = 1,
          consecutiveEmptyRounds = 0, roundState = None, roundEndsAt = None,
          closingToken = None, closingStartedAt = None, version = 6,
          config = \<lparr>roundDurationMs = 5000, winnersPerRound = 1, antiSnipeWindowMs = 10000,
                     antiSnipeExtendMs = 10000, maxWinsPerUser = 1, maxDurationMs = 0,
                     maxConsecutiveEmptyRounds = 3\<rparr>\<rparr>],
      bids =
        [\<lparr>userId = ''u2'', amount = 90, lastBidAt = 300, b_id = ''b2'', auctionId = ''a1'',
          status = Active, createdAt = 300, updatedAt = 300, settlement = None\<rparr>],
      rounds = [], ledger = []\<rparr>"

text \<open>
  A store whose auction is closing under the token \<open>tok1\<close> while the round document of
  its current round exists.
\<close>

definition resumedStore :: store where
  "resumedStore =
     \<lparr>users =
        [\<lparr>u_id = ''u1'', u_createdAt = 0,
          balance = \<lparr>available = 900, reserved = 100, spent = 0\<rparr>, totalTopups = 1000\<rparr>],
      auctions =
        [\<lparr>a_id = ''a1'', a_createdAt = 10, a_updatedAt = 10650, title = ''gift'', state = Running,
          startedAt = Some 100, endsAt = None, endedAt = None, endReason = None,
          totalQuantity = 1, awardedCount = 0, revenue = 0, currentRound = 1,
          consecutiveEmptyRounds = 0, roundState = Some Closing, roundEndsAt = Some 10200,
          closingToken = Some ''tok1'', closingStartedAt = Some 10650, version = 3,
          config = \<lparr>roundDurationMs = 5000, winnersPerRound = 1, antiSnipeWindowMs = 10000,
                     antiSnipeExtendMs = 10000, maxWinsPerUser = 1, maxDurationMs = 0,
                     maxConsecutiveEmptyRounds = 3\<rparr>\<rparr>],
      bids =
        [\<lparr>userId = ''u1'', amount = 100, lastBidAt = 200, b_id = ''b1'', auctionId = ''a1'',
          status = Active, createdAt = 200, updatedAt = 200, settlement = None\<rparr>],
      rounds =
        [\<lparr>r_auctionId = ''a1'', roundNumber = 1, r_endedAt = 10651, r_clearingPrice = 100,
          winners = [\<lparr>w_userId = ''u1'', w_amount = 100, w_giftSerial = 1, w_paid = 100,
                      w_refunded = 0\<rparr>]\<rparr>],
      ledger = []\<rparr>"

text \<open>The store once the auction of the run is started, before any bid.\<close>

definition startedStore :: store where
  "startedStore = run setupOps emptyStore"

text \<open>The store after the first user has withdrawn the bid of 100.\<close>

definition withdrawnStore :: store where
  "withdrawnStore = snd (withdrawBid (envAt 300 []) ''a1'' ''u1'' biddingStore)"

text \<open>
  An auction with a deadline 8000 ms after its start at 100, and a bid at 200 inside the
  anti-snipe window.
\<close>

definition deadlineStore :: store where
  "deadlineStore =
     run [CreateUser ''u1'' 0, TopupUser (envAt 1 []) ''u1'' 1000,
          CreateAuction ''a2'' 10
            \<lparr>in_title = ''gift'', in_totalQuantity = 2,
             in_config = Some \<lparr>in_roundDurationMs = Some 5000, in_winnersPerRound = Some 1,
                               in_antiSnipeWindowMs = None, in_antiSnipeExtendMs = None,
                               in_maxWinsPerUser = None, in_maxDurationMs = Some 8000,
                               in_maxConsecutiveEmptyRounds = None\<rparr>\<rparr>,
          StartAuction (envAt 100 []) ''a2'',
          PlaceBid (envAt 200 ''b1'') ''a2'' ''u1'' 100] emptyStore"

text \<open>A started auction whose anti-snipe window is 0.\<close>

definition noWindowStore :: store where
  "noWindowStore =
     run [CreateUser ''u1'' 0, TopupUser (envAt 1 []) ''u1'' 1000,
          CreateAuction ''a3'' 10
            \<lparr>in_title = ''gift'', in_totalQuantity = 2,
             in_config = Some \<lparr>in_roundDurationMs = Some 5000, in_winnersPerRound = Some 1,
                               in_antiSnipeWindowMs = Some 0, in_antiSnipeExtendMs = None,
                               in_maxWinsPerUser = None, in_maxDurationMs = None,
                               in_maxConsecutiveEmptyRounds = None\<rparr>\<rparr>,
          StartAuction (envAt 100 []) ''a3''] emptyStore"

text \<open>
  Two gifts with two winners per round and bids of 30, 20 and 10; the first round is due
  and locked with the token \<open>tok1\<close>.
\<close>

definition twoGiftsStore :: store where
  "twoGiftsStore =
     run [CreateUser ''u1'' 0, TopupUser (envAt 1 []) ''u1'' 1000,
          CreateUser ''u2'' 2, TopupUser (envAt 3 []) ''u2'' 1000,
          CreateUser ''u3'' 4, TopupUser (envAt 5 []) ''u3'' 1000,
          CreateAuction ''a1'' 10
            \<lparr>in_title = ''gift'', in_totalQuantity = 2,
             in_config = Some \<lparr>in_roundDurationMs = Some 5000, in_winnersPerRound = Some 2,
                               in_antiSnipeWindowMs = None, in_antiSnipeExtendMs = None,
                               in_maxWinsPerUser = None, in_maxDurationMs = None,
                               in_maxConsecutiveEmptyRounds = None\<rparr>\<rparr>,
          StartAuction (envAt 100 []) ''a1'',
          PlaceBid (envAt 200 ''b1'') ''a1'' ''u1'' 30,
          PlaceBid (envAt 300 ''b2'') ''a1'' ''u2'' 20,
          PlaceBid (envAt 400 ''b3'') ''a1'' ''u3'' 10,
          LockDueRound ''a1'' ''tok1'' 10650] emptyStore"




section \<open>Properties of the ranking\<close>

lemma compare_le_iff_ranksBefore: "compareRankableBids a b \<le> 0 \<longleftrightarrow> ranksBefore a b"
  by (auto simp: compareRankableBids_def ranksBefore_def Let_def)

lemma ranksBefore_iff_key: "ranksBefore a b \<longleftrightarrow> rankKey a \<le> rankKey b"
  by (auto simp: ranksBefore_def rankKey_def less_eq_prod_def)

lemma insertSorted_insort: "insertSorted compareRankableBids x ys = insort_key rankKey x ys"
  by (induction ys) (simp_all add: compare_le_iff_ranksBefore ranksBefore_iff_key)

lemma array_sort_sort_key: "array_sort compareRankableBids xs = sort_key rankKey xs"
  by (induction xs) (simp_all add: array_sort_def sort_key_def insertSorted_insort)

lemma sorted_wrt_ranksBefore_iff: "sorted_wrt ranksBefore xs \<longleftrightarrow> sorted (map rankKey xs)"
  by (induction xs) (auto simp: ranksBefore_iff_key)

lemma sorted_key_unique:
  assumes "mset ys = mset xs" "sorted (map rankKey ys)" "sorted (map rankKey xs)"
    and "distinct (map rankKey xs)"
  shows "ys = xs"
proof -
  have m: "mset (map rankKey ys) = mset (map rankKey xs)"
    using assms(1) by simp
  have d: "distinct (map rankKey ys)"
    using mset_eq_imp_distinct_iff [OF m] assms(4) by simp
  have "set (map rankKey ys) = set (map rankKey xs)"
    using m by (rule mset_eq_setD)
  then have e: "map rankKey ys = map rankKey xs"
    using assms(2,3,4) d by (intro sorted_distinct_set_unique) auto
  have s: "set ys = set xs"
    using assms(1) by (rule mset_eq_setD)
  have "inj_on rankKey (set ys \<union> set xs)"
    using assms(4) s by (simp add: distinct_map)
  then have "(map rankKey ys = map rankKey xs) = (ys = xs)"
    by (rule inj_on_map_eq_map)
  with e show ?thesis by simp
qed

text \<open>
  Claim C3. For \<open>n \<le> 0\<close>, \<open>selectWinners\<close> returns no winner and price 0. For \<open>n > 0\<close> the
  winners are the first \<open>min n |bids|\<close> entries of an arrangement of all the bids that is
  sorted by the specification's order (higher amount, then earlier \<open>lastBidAt\<close>, then lower
  \<open>userId\<close>); the clearing price is the amount of the last winner, or 0 when there is
  none; and when no two bids share amount, time and user, the winners are the first
  \<open>n\<close> entries of every sorted arrangement, so the input determines the result.
\<close>

theorem selectWinners_spec:
  "(n \<le> 0 \<longrightarrow> selectWinners bs n = ([], 0)) \<and>
   (0 < n \<longrightarrow>
      (\<exists>rest. mset (fst (selectWinners bs n) @ rest) = mset bs
            \<and> sorted_wrt ranksBefore (fst (selectWinners bs n) @ rest)) \<and>
      length (fst (selectWinners bs n)) = min (nat n) (length bs) \<and>
      snd (selectWinners bs n) =
        (if fst (selectWinners bs n) = [] then 0
         else amount (last (fst (selectWinners bs n)))) \<and>
      (\<forall>ys. distinct (map rankKey bs) \<and> mset ys = mset bs \<and> sorted_wrt ranksBefore ys
            \<longrightarrow> fst (selectWinners bs n) = take (nat n) ys))"
proof (intro conjI impI allI)
  assume "n \<le> 0"
  then show "selectWinners bs n = ([], 0)" by (simp add: selectWinners_def)
next
  assume n: "0 < n"
  let ?s = "array_sort compareRankableBids bs"
  have fst_eq: "fst (selectWinners bs n) = take (nat n) ?s"
    using n by (simp add: selectWinners_def Let_def)
  have ms: "mset ?s = mset bs" by (simp add: array_sort_sort_key)
  have so: "sorted_wrt ranksBefore ?s"
    by (simp add: sorted_wrt_ranksBefore_iff array_sort_sort_key)
  show "\<exists>rest. mset (fst (selectWinners bs n) @ rest) = mset bs
            \<and> sorted_wrt ranksBefore (fst (selectWinners bs n) @ rest)"
    using ms so unfolding fst_eq by (intro exI [of _ "drop (nat n) ?s"]) simp
  have len: "length ?s = length bs"
    using ms by (metis size_mset)
  show "length (fst (selectWinners bs n)) = min (nat n) (length bs)"
    unfolding fst_eq by (simp add: len min.commute)
  show "snd (selectWinners bs n) =
        (if fst (selectWinners bs n) = [] then 0
         else amount (last (fst (selectWinners bs n))))"
    using n by (simp add: selectWinners_def Let_def last_conv_nth)
  fix ys
  assume a: "distinct (map rankKey bs) \<and> mset ys = mset bs \<and> sorted_wrt ranksBefore ys"
  have "distinct (map rankKey ?s)"
    using a mset_eq_imp_distinct_iff [of "map rankKey ?s" "map rankKey bs"] ms by simp
  moreover have "mset ys = mset ?s" using a ms by simp
  ultimately have "ys = ?s"
    using a so by (intro sorted_key_unique) (simp_all add: sorted_wrt_ranksBefore_iff)
  then show "fst (selectWinners bs n) = take (nat n) ys"
    using fst_eq by simp
qed

text \<open>
  Three bids of 100 by users b, a, c at times 5, 5, 4: for \<open>n = 2\<close> the winners are
  c then a, at price 100.
\<close>

theorem selectWinners_spec_witness:
  "(0::int) < 2 \<and>
   distinct (map rankKey
     [\<lparr>userId = ''b'', amount = 100, lastBidAt = 5\<rparr>,
      \<lparr>userId = ''a'', amount = 100, lastBidAt = 5\<rparr>,
      \<lparr>userId = ''c'', amount = 100, lastBidAt = 4\<rparr>]) \<and>
   sorted_wrt ranksBefore
     [\<lparr>userId = ''c'', amount = 100, lastBidAt = 4\<rparr>,
      \<lparr>userId = ''a'', amount = 100, lastBidAt = 5\<rparr>,
      \<lparr>userId = ''b'', amount = 100, lastBidAt = 5\<rparr>] \<and>
   selectWinners
     [\<lparr>userId = ''b'', amount = 100, lastBidAt = 5\<rparr>,
      \<lparr>userId = ''a'', amount = 100, lastBidAt = 5\<rparr>,
      \<lparr>userId = ''c'', amount = 100, lastBidAt = 4\<rparr>] 2
     = ([\<lparr>userId = ''c'', amount = 100, lastBidAt = 4\<rparr>,
         \<lparr>userId = ''a'', amount = 100, lastBidAt = 5\<rparr>], 100)"
proof -
  let ?bids = "[\<lparr>userId = ''b'', amount = 100, lastBidAt = 5\<rparr>,
      \<lparr>userId = ''a'', amount = 100, lastBidAt = 5\<rparr>,
      \<lparr>userId = ''c'', amount = 100, lastBidAt = (4::int)\<rparr>]"
  let ?ys = "[\<lparr>userId = ''c'', amount = 100, lastBidAt = 4\<rparr>,
      \<lparr>userId = ''a'', amount = 100, lastBidAt = 5\<rparr>,
      \<lparr>userId = ''b'', amount = 100, lastBidAt = (5::int)\<rparr>]"
  have pos: "(0::int) < 2" by simp
  have d: "distinct (map rankKey ?bids)" by (simp add: rankKey_def)
  have m: "mset ?ys = mset ?bids" by (simp add: add_mset_commute)
  have s: "sorted_wrt ranksBefore ?ys" by (simp add: ranksBefore_def)
  have "fst (selectWinners ?bids 2) = take (nat 2) ?ys
        \<and> snd (selectWinners ?bids 2) =
            (if fst (selectWinners ?bids 2) = [] then 0
             else amount (last (fst (selectWinners ?bids 2))))"
    using selectWinners_spec [of 2 ?bids, THEN conjunct2, rule_format, OF pos] d m s by blast
  then have "selectWinners ?bids 2 = (take 2 ?ys, 100)"
    by (simp add: prod_eq_iff)
  then show ?thesis using d s by simp
qed

section \<open>Transactions, store primitives and the conservation of money\<close>

subsection \<open>The transaction wrapper\<close>

declare withTxnLoop.simps [simp del]

lemma withTxnLoop_cases:
  "withTxnLoop a m r e fn s = (res, s') \<Longrightarrow>
     (s' = s \<and> (\<exists>err. res = Inl err)) \<or> (\<exists>n x. a \<le> n \<and> n \<le> m \<and> res = Inr x \<and> fn n s = (Inr x, s'))"
proof (induction a m r e fn s rule: withTxnLoop.induct)
  case (1 attempt maxAttempts retryOnDuplicateKey lastErr fn s)
  show ?case
  proof (cases "attempt \<le> maxAttempts")
    case False
    with "1.prems" show ?thesis
      by (auto simp: withTxnLoop.simps [of attempt])
  next
    case le: True
    obtain r1 s1 where f: "fn attempt s = (r1, s1)" by (cases "fn attempt s")
    show ?thesis
    proof (cases r1)
      case (Inr x)
      with "1.prems" le f show ?thesis
        by (auto simp: withTxnLoop.simps [of attempt])
    next
      case (Inl err)
      show ?thesis
      proof (cases "(isTransientTxnError err \<or> (retryOnDuplicateKey \<and> isDuplicateKeyError err))
                \<and> attempt < maxAttempts")
        case True
        with "1.prems" le f Inl
        have "withTxnLoop (attempt + 1) maxAttempts retryOnDuplicateKey err fn s = (res, s')"
          by (simp add: withTxnLoop.simps [of attempt])
        from "1.IH" [OF le f [symmetric] _ True this] Inl
        show ?thesis by auto
      next
        case False
        with "1.prems" le f Inl show ?thesis
          by (auto simp: withTxnLoop.simps [of attempt])
      qed
    qed
  qed
qed

lemma withTxn_cases:
  assumes "withTxn r fn s = (res, s')"
  obtains (failed) err where "res = Inl err" "s' = s"
  | (committed) n x where "res = Inr x" "fn n s = (Inr x, s')"
  using withTxnLoop_cases [OF assms [unfolded withTxn_def]] by blast

lemma withTxn_first:
  "fn 1 s = (Inr x, s') \<Longrightarrow> withTxn r fn s = (Inr x, s')"
  unfolding withTxn_def by (subst withTxnLoop.simps) simp

lemma withTxn_first_fail:
  "fn 1 s = (Inl err, s1) \<Longrightarrow> \<not> isTransientTxnError err \<Longrightarrow> \<not> (r \<and> isDuplicateKeyError err)
     \<Longrightarrow> withTxn r fn s = (Inl err, s)"
  unfolding withTxn_def by (subst withTxnLoop.simps) auto

subsection \<open>Store primitives\<close>

lemma updateFirst_pres:
  "\<forall>x \<in> set xs. Q x \<Longrightarrow> (\<And>x. x \<in> set xs \<Longrightarrow> P x \<Longrightarrow> Q x \<Longrightarrow> Q (f x))
     \<Longrightarrow> \<forall>x \<in> set (updateFirst P f xs). Q x"
  by (induction xs) auto

lemma updateFirst_map:
  "(\<And>x. x \<in> set xs \<Longrightarrow> P x \<Longrightarrow> g (f x) = g x) \<Longrightarrow> map g (updateFirst P f xs) = map g xs"
  by (induction xs) auto

lemma updateFirst_none: "find P xs = None \<Longrightarrow> updateFirst P f xs = xs"
  by (induction xs) (auto split: if_splits)

lemma insertLedger_simps [simp]:
  "users (insertLedger docs s) = users s"
  "auctions (insertLedger docs s) = auctions s"
  "bids (insertLedger docs s) = bids s"
  "rounds (insertLedger docs s) = rounds s"
  "ledger (insertLedger docs s) = ledger s @ docs"
  by (simp_all add: insertLedger_def)


subsection \<open>Rounding\<close>

declare ulp.simps [simp del]








subsection \<open>Money\<close>


lemma moneyInv_ledger [simp]: "moneyInv (insertLedger docs s) = moneyInv s"
  by (simp add: moneyInv_def)

lemma moneyInv_auctions [simp]: "moneyInv (s\<lparr>auctions := as\<rparr>) = moneyInv s"
  by (simp add: moneyInv_def)

lemma moneyInv_rounds [simp]: "moneyInv (s\<lparr>rounds := rs\<rparr>) = moneyInv s"
  by (simp add: moneyInv_def)









lemma withTxn_invariant:
  assumes "I s" and "\<And>n x s'. fn n s = (Inr x, s') \<Longrightarrow> I s'"
  shows "I (snd (withTxn r fn s))"
proof -
  obtain res s' where w: "withTxn r fn s = (res, s')"
    by (cases "withTxn r fn s")
  from w have "I s'"
  proof (cases rule: withTxn_cases)
    case (failed err)
    then show ?thesis using assms(1) by simp
  next
    case (committed n x)
    then show ?thesis using assms(2) by simp
  qed
  then show ?thesis using w by simp
qed


lemma moneyInvI:
  "(\<forall>u \<in> set (users s). userConserved u) \<Longrightarrow> (\<forall>b \<in> set (bids s). 0 < amount b) \<Longrightarrow> moneyInv s"
  by (simp add: moneyInv_def)













lemma find_SomeD: "find P xs = Some x \<Longrightarrow> x \<in> set xs \<and> P x"
  by (auto simp: find_Some_iff)




subsection \<open>Winners of a round\<close>


lemma sortByRank_set [simp]: "set (sortByRank bs) = set bs"
  by (simp add: sortByRank_def)

lemma sortByRank_mset [simp]: "mset (sortByRank bs) = mset bs"
  by (simp add: sortByRank_def)


lemma roundWinnerBids_subset:
  "set (roundWinnerBids aid auction s) \<subseteq> {b \<in> set (bids s). auctionId b = aid \<and> status b = Active}"
  by (auto simp: roundWinnerBids_def Let_def dest!: in_set_takeD)










subsection \<open>Every operation conserves money\<close>


lemma run_invariant:
  assumes "I s" and "\<And>opn t. I t \<Longrightarrow> I (exec opn t)"
  shows "I (run ops s)"
  using assms(1) unfolding run_def
  by (induction ops arbitrary: s) (simp_all add: assms(2))





section \<open>The snapshot\<close>

lemma snapshotK_nonpos:
  "state auction \<noteq> Running \<or> max 0 (totalQuantity auction - awardedCount auction) = 0
     \<Longrightarrow> snapshotK auction \<le> 0"
  by (auto simp: snapshotK_def Let_def)

lemma snapshotK_zero_iff:
  "1 \<le> winnersPerRound (config auction) \<Longrightarrow>
     snapshotK auction = 0 \<longleftrightarrow>
       state auction \<noteq> Running \<or> max 0 (totalQuantity auction - awardedCount auction) = 0"
  by (auto simp: snapshotK_def Let_def)

lemma snapshot_fields:
  assumes "getAuctionSnapshot t aid optUserId s = Inr snap"
  shows "remainingQuantity snap
           = max 0 (totalQuantity (snap_auction snap) - awardedCount (snap_auction snap))
       \<and> (snapshotK (snap_auction snap) \<le> 0 \<longrightarrow> estimatedClearingPrice snap = None)"
proof (cases "find (\<lambda>a. a_id a = aid) (auctions s)")
  case None
  then show ?thesis using assms by (simp add: getAuctionSnapshot_def)
next
  case (Some auction)
  then show ?thesis using assms
    by (auto simp: getAuctionSnapshot_def Let_def)
qed

text \<open>
  Claim C10. The snapshot has no estimated clearing price whenever the number \<open>k\<close> of
  winners it estimates for is 0, which is the case whenever the auction is not running or
  nothing remains to award, however many active bids there are. With at least one winner
  per round configured, \<open>k = 0\<close> holds in exactly those two cases.
\<close>

theorem snapshot_no_estimate:
  assumes "getAuctionSnapshot t aid optUserId s = Inr snap"
  shows "(snapshotK (snap_auction snap) = 0 \<longrightarrow> estimatedClearingPrice snap = None)
       \<and> (state (snap_auction snap) \<noteq> Running \<or> remainingQuantity snap = 0
            \<longrightarrow> estimatedClearingPrice snap = None)
       \<and> (1 \<le> winnersPerRound (config (snap_auction snap)) \<longrightarrow>
            (snapshotK (snap_auction snap) = 0 \<longleftrightarrow>
               state (snap_auction snap) \<noteq> Running \<or> remainingQuantity snap = 0))"
proof -
  let ?a = "snap_auction snap"
  have r: "remainingQuantity snap = max 0 (totalQuantity ?a - awardedCount ?a)"
    and e: "snapshotK ?a \<le> 0 \<longrightarrow> estimatedClearingPrice snap = None"
    using snapshot_fields [OF assms] by simp_all
  have 1: "snapshotK ?a = 0 \<longrightarrow> estimatedClearingPrice snap = None"
    using e by simp
  have 2: "state ?a \<noteq> Running \<or> remainingQuantity snap = 0
            \<longrightarrow> estimatedClearingPrice snap = None"
    using e snapshotK_nonpos [of ?a] unfolding r by blast
  have 3: "1 \<le> winnersPerRound (config ?a) \<longrightarrow>
            (snapshotK ?a = 0 \<longleftrightarrow> state ?a \<noteq> Running \<or> remainingQuantity snap = 0)"
    using snapshotK_zero_iff [of ?a] unfolding r by blast
  from 1 2 3 show ?thesis by blast
qed

text \<open>An ended auction with one active bid left: the estimate is absent.\<close>

theorem snapshot_no_estimate_witness:
  "\<not> isl (getAuctionSnapshot 1000 ''a1'' None endedStore)
   \<and> state (snap_auction (projr (getAuctionSnapshot 1000 ''a1'' None endedStore))) \<noteq> Running
   \<and> length (filter (\<lambda>b. auctionId b = ''a1'' \<and> status b = Active) (bids endedStore)) = 1
   \<and> estimatedClearingPrice (projr (getAuctionSnapshot 1000 ''a1'' None endedStore)) = None"
proof -
  let ?r = "getAuctionSnapshot 1000 ''a1'' None endedStore"
  have i: "\<not> isl ?r" by code_simp
  then have s: "?r = Inr (projr ?r)" by (cases ?r) simp_all
  have st: "state (snap_auction (projr ?r)) \<noteq> Running" by code_simp
  have n: "length (filter (\<lambda>b. auctionId b = ''a1'' \<and> status b = Active) (bids endedStore)) = 1"
    by code_simp
  from snapshot_no_estimate [OF s] st have "estimatedClearingPrice (projr ?r) = None" by blast
  with i st n show ?thesis by blast
qed

section \<open>A round document that exists already\<close>


lemma settleTxn_duplicate_round:
  assumes "find (\<lambda>a. a_id a = aid \<and> state a = Running \<and> roundState a = Some Closing
                     \<and> closingToken a = Some token) (auctions s) = Some auction"
    and "r \<in> set (rounds s)" "r_auctionId r = aid" "roundNumber r = currentRound auction"
  shows "settleTxn aid token env s = (Inl (duplicateKey [''auctionId'', ''roundNumber'']), s)"
  using assms by (auto simp: settleTxn_def insertRound_def Let_def)

section \<open>A failed bid\<close>

lemma placeBidWrites_insufficient:
  assumes "\<forall>u \<in> set (users s). u_id u = uid \<longrightarrow> available (balance u) < delta"
  shows "placeBidWrites aid uid newAmount env auction cur existing delta s
           = (Inl (AppError INSUFFICIENT_FUNDS ''Insufficient funds or user not found'' 409), s)"
proof -
  have n: "find (\<lambda>u. u_id u = uid \<and> available (balance u) \<ge> delta) (users s) = None"
    using assms by (auto simp: find_None_iff)
  then have "updateFirst (\<lambda>u. u_id u = uid \<and> available (balance u) \<ge> delta)
               (reserveFunds delta) (users s) = users s"
    by (rule updateFirst_none)
  with n show ?thesis
    by (simp add: placeBidWrites_def findOneAndUpdate_def)
qed

lemma placeBidTxn_insufficient:
  assumes "find (\<lambda>a. a_id a = aid) (auctions s) = Some auction"
    and "openRoundEndsAt auction = Some r" "now env < r"
    and "\<forall>b \<in> set (bids s). auctionId b = aid \<and> userId b = uid
            \<longrightarrow> status b = Active \<or> status b = Withdrawn"
    and "activeAmount aid uid s < newAmount"
    and "\<forall>u \<in> set (users s). u_id u = uid
            \<longrightarrow> available (balance u) < newAmount - activeAmount aid uid s"
  shows "placeBidTxn aid uid newAmount env s
           = (Inl (AppError INSUFFICIENT_FUNDS ''Insufficient funds or user not found'' 409), s)"
proof -
  let ?existing = "find (\<lambda>b. auctionId b = aid \<and> userId b = uid) (bids s)"
  have st: "\<not> (?existing \<noteq> None \<and> \<not> (map_option status ?existing = Some Active)
               \<and> map_option status ?existing \<noteq> Some Withdrawn)"
    using assms(4) by (cases ?existing) (auto dest!: find_SomeD)
  have "placeBidTxn aid uid newAmount env s
        = placeBidWrites aid uid newAmount env auction r ?existing
            (newAmount - activeAmount aid uid s) s"
    using assms(1,2,3,5) st
    by (cases ?existing) (auto simp: placeBidTxn_def Let_def activeAmount_def)
  then show ?thesis
    using placeBidWrites_insufficient [OF assms(6)] by simp
qed

text \<open>
  Claim C7. When \<open>placeBid\<close> fails, whatever the error, it leaves the store as it was:
  users and their balances, bids and ledger. In particular, when the checks on the auction,
  the round, the existing bid and the amount pass and no document of the user has
  \<open>available \<ge> delta\<close>, it fails with \<open>INSUFFICIENT_FUNDS\<close>.
\<close>

theorem placeBid_failure_atomic:
  "(placeBid env aid uid newAmount s = (Inl err, s') \<longrightarrow> s' = s)
   \<and> (isSafeInteger newAmount \<and> 0 < newAmount
      \<and> find (\<lambda>a. a_id a = aid) (auctions s) = Some auction
      \<and> openRoundEndsAt auction = Some r \<and> now (env 1) < r
      \<and> (\<forall>b \<in> set (bids s). auctionId b = aid \<and> userId b = uid
            \<longrightarrow> status b = Active \<or> status b = Withdrawn)
      \<and> activeAmount aid uid s < newAmount
      \<and> (\<forall>u \<in> set (users s). u_id u = uid
            \<longrightarrow> available (balance u) < newAmount - activeAmount aid uid s)
      \<longrightarrow> placeBid env aid uid newAmount s
            = (Inl (AppError INSUFFICIENT_FUNDS ''Insufficient funds or user not found'' 409), s))"
proof (intro conjI impI)
  assume f: "placeBid env aid uid newAmount s = (Inl err, s')"
  show "s' = s"
  proof (cases "\<not> isSafeInteger newAmount \<or> newAmount \<le> 0")
    case True
    then show ?thesis using f by (simp add: placeBid_def)
  next
    case False
    then have "withTxn True (\<lambda>attempt. placeBidTxn aid uid newAmount (env attempt)) s = (Inl err, s')"
      using f by (simp add: placeBid_def)
    then show ?thesis by (cases rule: withTxn_cases) simp_all
  qed
next
  assume a: "isSafeInteger newAmount \<and> 0 < newAmount
      \<and> find (\<lambda>a. a_id a = aid) (auctions s) = Some auction
      \<and> openRoundEndsAt auction = Some r \<and> now (env 1) < r
      \<and> (\<forall>b \<in> set (bids s). auctionId b = aid \<and> userId b = uid
            \<longrightarrow> status b = Active \<or> status b = Withdrawn)
      \<and> activeAmount aid uid s < newAmount
      \<and> (\<forall>u \<in> set (users s). u_id u = uid
            \<longrightarrow> available (balance u) < newAmount - activeAmount aid uid s)"
  then have "placeBidTxn aid uid newAmount (env 1) s
           = (Inl (AppError INSUFFICIENT_FUNDS ''Insufficient funds or user not found'' 409), s)"
    by (intro placeBidTxn_insufficient [of aid s auction r]) simp_all
  then have "withTxn True (\<lambda>attempt. placeBidTxn aid uid newAmount (env attempt)) s
           = (Inl (AppError INSUFFICIENT_FUNDS ''Insufficient funds or user not found'' 409), s)"
    by (rule withTxn_first_fail) simp_all
  then show "placeBid env aid uid newAmount s
            = (Inl (AppError INSUFFICIENT_FUNDS ''Insufficient funds or user not found'' 409), s)"
    using a by (simp add: placeBid_def)
qed

text \<open>
  A second user bids with an \<open>_id\<close> that is taken: every attempt reserves the funds and
  then fails on the insert, and the store after \<open>placeBid\<close> is the store before. The same
  user bidding 2000 with 1000 available fails with \<open>INSUFFICIENT_FUNDS\<close>.
\<close>

theorem placeBid_failure_atomic_witness:
  "fst (placeBid (envAt 300 ''b1'') ''a1'' ''u2'' 90 biddingStore) = Inl (duplicateKey [''_id''])
   \<and> users (snd (placeBidTxn ''a1'' ''u2'' 90 (envAt 300 ''b1'' 1) biddingStore))
        \<noteq> users biddingStore
   \<and> snd (placeBid (envAt 300 ''b1'') ''a1'' ''u2'' 90 biddingStore) = biddingStore
   \<and> placeBid (envAt 300 ''b2'') ''a1'' ''u2'' 2000 biddingStore
        = (Inl (AppError INSUFFICIENT_FUNDS ''Insufficient funds or user not found'' 409),
           biddingStore)"
proof -
  let ?p = "placeBid (envAt 300 ''b1'') ''a1'' ''u2'' 90 biddingStore"
  have e: "fst ?p = Inl (duplicateKey [''_id''])" by code_simp
  then have "?p = (Inl (duplicateKey [''_id'']), snd ?p)" by (simp add: prod_eq_iff)
  then have u: "snd ?p = biddingStore"
    by (rule placeBid_failure_atomic [THEN conjunct1, rule_format])
  have w: "users (snd (placeBidTxn ''a1'' ''u2'' 90 (envAt 300 ''b1'' 1) biddingStore))
        \<noteq> users biddingStore" by code_simp
  have h1: "isSafeInteger 2000" "(0::int) < 2000" by (simp_all add: isSafeInteger_def)
  have h2: "find (\<lambda>a. a_id a = ''a1'') (auctions biddingStore) = Some (hd (auctions biddingStore))"
    by code_simp
  have h3: "openRoundEndsAt (hd (auctions biddingStore)) = Some 10200" by code_simp
  have h4: "now (envAt 300 ''b2'' 1) < 10200" by code_simp
  have h5: "\<forall>b \<in> set (bids biddingStore). auctionId b = ''a1'' \<and> userId b = ''u2''
            \<longrightarrow> status b = Active \<or> status b = Withdrawn" by code_simp
  have h6: "activeAmount ''a1'' ''u2'' biddingStore < 2000" by code_simp
  have h7: "\<forall>u \<in> set (users biddingStore). u_id u = ''u2''
            \<longrightarrow> available (balance u) < 2000 - activeAmount ''a1'' ''u2'' biddingStore"
    by code_simp
  have "placeBid (envAt 300 ''b2'') ''a1'' ''u2'' 2000 biddingStore
        = (Inl (AppError INSUFFICIENT_FUNDS ''Insufficient funds or user not found'' 409),
           biddingStore)"
    using placeBid_failure_atomic [THEN conjunct2, rule_format,
            of 2000 "''a1''" biddingStore "hd (auctions biddingStore)" 10200
               "envAt 300 ''b2''" "''u2''"]
      h1 h2 h3 h4 h5 h6 h7 by blast
  with e u w show ?thesis by blast
qed

section \<open>Withdrawing a bid\<close>


lemma withdrawBidTxn_success:
  assumes "withdrawBidTxn aid uid env s = (Inr wb, s')"
  shows "\<exists>bid.
     find (\<lambda>b. auctionId b = aid \<and> userId b = uid \<and> status b = Active) (bids s) = Some bid
     \<and> wb = bid\<lparr>status := Withdrawn, updatedAt := now env\<rparr>
     \<and> s' = \<lparr>users = updateFirst (\<lambda>u. u_id u = uid \<and> reserved (balance u) \<ge> amount bid)
                        (unreserveFunds (amount bid)) (users s),
              auctions = updateFirst (\<lambda>a. a_id a = aid)
                        (\<lambda>a. a\<lparr>a_updatedAt := now env, version := version a + 1\<rparr>) (auctions s),
              bids = updateFirst (\<lambda>x. b_id x = b_id bid \<and> status x = Active)
                        (\<lambda>x. x\<lparr>status := Withdrawn, updatedAt := now env\<rparr>) (bids s),
              rounds = rounds s,
              ledger = ledger s @
                 [\<lparr>l_createdAt = now env, l_userId = uid, l_type = Unreserve,
                   l_amount = amount bid, l_auctionId = Some aid,
                   meta = [(''bidId'', MetaString (b_id bid))]\<rparr>]\<rparr>
     \<and> (\<exists>u. find (\<lambda>u. u_id u = uid \<and> reserved (balance u) \<ge> amount bid) (users s) = Some u)"
  using assms
  by (auto simp: withdrawBidTxn_def updateOne_def findOneAndUpdate_def Let_def insertLedger_def
           split: option.splits if_splits)






section \<open>The end of a round never passes the end of the auction\<close>

lemma clampInv_empty: "clampInv emptyStore"
  by (simp add: clampInv_def emptyStore_def)

lemma clampInv_other [simp]:
  "clampInv (s\<lparr>users := us\<rparr>) = clampInv s"
  "clampInv (s\<lparr>bids := bs\<rparr>) = clampInv s"
  "clampInv (s\<lparr>rounds := rs\<rparr>) = clampInv s"
  "clampInv (s\<lparr>ledger := ls\<rparr>) = clampInv s"
  "clampInv (insertLedger docs s) = clampInv s"
  by (simp_all add: clampInv_def)

lemma clampInv_update:
  assumes "clampInv s"
    and "\<And>a. a \<in> set (auctions s) \<Longrightarrow> P a \<Longrightarrow> auctionClamped a \<Longrightarrow> auctionClamped (f a)"
  shows "clampInv (s\<lparr>auctions := updateFirst P f (auctions s)\<rparr>)"
proof -
  have "\<forall>a \<in> set (auctions s). auctionClamped a"
    using assms(1) by (simp add: clampInv_def)
  then have "\<forall>a \<in> set (updateFirst P f (auctions s)). auctionClamped a"
    by (rule updateFirst_pres) (rule assms(2))
  then show ?thesis by (simp add: clampInv_def)
qed

text \<open>A loop that does not write to the auctions.\<close>

lemma forEach_auctions:
  assumes "forEach body xs s = (r, s')"
    and "\<And>x t r' t'. body x t = (r', t') \<Longrightarrow> auctions t' = auctions t"
  shows "auctions s' = auctions s"
  using assms(1)
proof (induction xs arbitrary: s)
  case Nil
  then show ?case by simp
next
  case (Cons x xs)
  obtain r1 s1 where b: "body x s = (r1, s1)" by (cases "body x s")
  then have a1: "auctions s1 = auctions s" by (rule assms(2))
  show ?case
  proof (cases r1)
    case (Inl e)
    with Cons.prems b a1 show ?thesis by simp
  next
    case (Inr u)
    with Cons.prems b have "forEach body xs s1 = (r, s')" by simp
    from Cons.IH [OF this] a1 show ?thesis by simp
  qed
qed

lemma cancelBid_auctions: "cancelBid aid t b s = (r, s') \<Longrightarrow> auctions s' = auctions s"
  by (auto simp: cancelBid_def updateOne_def split: if_splits)

lemma refundLostBid_auctions: "refundLostBid aid t b s = (r, s') \<Longrightarrow> auctions s' = auctions s"
  by (auto simp: refundLostBid_def updateOne_def split: if_splits)

lemma settleWinner_auctions:
  "settleWinner aid auction t price w s = (r, s') \<Longrightarrow> auctions s' = auctions s"
  by (auto simp: settleWinner_def updateOne_def Let_def split: if_splits option.splits)

lemma writeBid_auctions:
  "writeBid aid uid newAmount env existing s = (r, s') \<Longrightarrow> auctions s' = auctions s"
  by (auto simp: writeBid_def findOneAndUpdate_def insertBid_def Let_def
           split: if_splits option.splits)

lemma updateFirst_pres_first:
  "find P xs = Some x \<Longrightarrow> \<forall>y \<in> set xs. Q y \<Longrightarrow> Q (f x) \<Longrightarrow> \<forall>y \<in> set (updateFirst P f xs). Q y"
  by (induction xs) (auto split: if_splits)

lemma updateFirst_map_first:
  "find P xs = Some x \<Longrightarrow> g (f x) = g x \<Longrightarrow> map g (updateFirst P f xs) = map g xs"
  by (induction xs) (auto split: if_splits)

lemma find_stronger:
  "find P xs = Some x \<Longrightarrow> Q x \<Longrightarrow> find (\<lambda>y. P y \<and> Q y) xs = Some x"
  by (induction xs) (auto split: if_splits)

lemma distinct_key_eq:
  "distinct (map k xs) \<Longrightarrow> x \<in> set xs \<Longrightarrow> y \<in> set xs \<Longrightarrow> k x = k y \<Longrightarrow> x = y"
  by (auto simp: distinct_map dest: inj_onD)

lemma find_distinct_key:
  assumes "distinct (map k xs)" "find (\<lambda>y. k y = i \<and> P y) xs = Some x"
    "find (\<lambda>y. k y = i \<and> Q y) xs = Some y"
  shows "x = y"
  using assms(1) find_SomeD [OF assms(2)] find_SomeD [OF assms(3)]
  by (auto intro: distinct_key_eq)

subsection \<open>Auction ids are unique\<close>

lemma auctionIdsDistinct_other [simp]:
  "auctionIdsDistinct (s\<lparr>users := us\<rparr>) = auctionIdsDistinct s"
  "auctionIdsDistinct (s\<lparr>bids := bs\<rparr>) = auctionIdsDistinct s"
  "auctionIdsDistinct (s\<lparr>rounds := rs\<rparr>) = auctionIdsDistinct s"
  "auctionIdsDistinct (s\<lparr>ledger := ls\<rparr>) = auctionIdsDistinct s"
  "auctionIdsDistinct (insertLedger docs s) = auctionIdsDistinct s"
  by (simp_all add: auctionIdsDistinct_def)

lemma auctionIdsDistinct_update:
  "auctionIdsDistinct s \<Longrightarrow> (\<And>a. a_id (f a) = a_id a)
     \<Longrightarrow> auctionIdsDistinct (s\<lparr>auctions := updateFirst P f (auctions s)\<rparr>)"
  by (simp add: auctionIdsDistinct_def updateFirst_map)

subsection \<open>Operations that write nothing but auctions' bookkeeping\<close>

lemma auctionClamped_iff:
  "auctionClamped a \<longleftrightarrow> (\<forall>r e. roundEndsAt a = Some r \<longrightarrow> endsAt a = Some e \<longrightarrow> r \<le> e)"
  by (auto simp: auctionClamped_def split: option.splits)

lemma roundInv_empty: "roundInv emptyStore"
  using clampInv_empty by (simp add: roundInv_def auctionIdsDistinct_def emptyStore_def)

lemma roundInv_same: "roundInv s \<Longrightarrow> auctions s' = auctions s \<Longrightarrow> roundInv s'"
  by (simp add: roundInv_def clampInv_def auctionIdsDistinct_def)

lemma roundInv_update:
  assumes "roundInv s" "\<And>a. a_id (f a) = a_id a"
    and "\<And>a. a \<in> set (auctions s) \<Longrightarrow> P a \<Longrightarrow> auctionClamped a \<Longrightarrow> auctionClamped (f a)"
  shows "roundInv (s\<lparr>auctions := updateFirst P f (auctions s)\<rparr>)"
  using assms clampInv_update [of s P f] auctionIdsDistinct_update [of s f P]
  by (simp add: roundInv_def)

lemma createUser_auctions: "auctions (snd (createUser newId t s)) = auctions s"
  by (simp add: createUser_def insertUser_def Let_def)

lemma topupUserTxn_auctions: "topupUserTxn uid amt env s = (r, s') \<Longrightarrow> auctions s' = auctions s"
  by (auto simp: topupUserTxn_def findOneAndUpdate_def split: option.splits)

lemma createAuction_round: "roundInv s \<Longrightarrow> roundInv (snd (createAuction newId t input s))"
  by (auto simp: createAuction_def insertAuction_def Let_def roundInv_def clampInv_def
                 auctionClamped_iff auctionIdsDistinct_def)

lemma startAuctionTxn_round:
  assumes "roundInv s" "startAuctionTxn aid env s = (Inr r, s')"
  shows "roundInv s'"
proof -
  obtain existing where "find (\<lambda>a. a_id a = aid) (auctions s) = Some existing"
    and s': "s' = s\<lparr>auctions := updateFirst (\<lambda>a. a_id a = aid \<and> state a = Draft)
                      (\<lambda>a. a\<lparr>state := Running, startedAt := Some (now env),
                             endsAt := (if maxDurationMs (config existing) > 0
                                        then Some (now env + maxDurationMs (config existing)) else None),
                             currentRound := 1,
                             roundState := Some Open,
                             roundEndsAt := Some
                               (case (if maxDurationMs (config existing) > 0
                                        then Some (now env + maxDurationMs (config existing)) else None) of
                                  Some ae \<Rightarrow> if ae < now env + roundDurationMs (config existing) then ae
                                             else now env + roundDurationMs (config existing)
                                | None \<Rightarrow> now env + roundDurationMs (config existing)),
                             consecutiveEmptyRounds := 0, a_updatedAt := now env,
                             endedAt := None, endReason := None, version := version a + 1\<rparr>)
                      (auctions s)\<rparr>"
    using assms(2)
    by (auto simp: startAuctionTxn_def findOneAndUpdate_def Let_def split: option.splits if_splits)
  show ?thesis unfolding s'
    using assms(1) by (rule roundInv_update) (auto simp: auctionClamped_iff)
qed

lemma lockDueRound_round:
  assumes "roundInv s"
  shows "roundInv (snd (lockDueRound aid token t s))"
proof -
  have "snd (lockDueRound aid token t s)
        = s\<lparr>auctions := updateFirst
                (\<lambda>a. a_id a = aid \<and> state a = Running \<and> roundState a = Some Open
                      \<and> isDue (t - closeGraceMs) a)
                (\<lambda>a. a\<lparr>roundState := Some Closing, closingToken := Some token,
                       closingStartedAt := Some t, a_updatedAt := t, version := version a + 1\<rparr>)
                (auctions s)\<rparr>"
    by (simp add: lockDueRound_def findOneAndUpdate_def Let_def)
  moreover have "roundInv \<dots>"
    using assms by (rule roundInv_update) (simp_all add: auctionClamped_iff)
  ultimately show ?thesis by simp
qed

lemma cancelAuctionTxn_round:
  assumes "roundInv s" "cancelAuctionTxn aid env s = (Inr r, s')"
  shows "roundInv s'"
proof -
  let ?s1 = "s\<lparr>auctions := updateFirst (\<lambda>a. a_id a = aid \<and> state a \<in> {Draft, Running})
             (\<lambda>a. a\<lparr>state := Cancelled, endedAt := Some (now env),
                    endReason := Some CancelledReason, a_updatedAt := now env,
                    roundState := None, roundEndsAt := None, closingToken := None,
                    closingStartedAt := None, version := version a + 1\<rparr>)
             (auctions s)\<rparr>"
  have "\<exists>u. forEach (cancelBid aid (now env))
          (filter (\<lambda>b. auctionId b = aid \<and> status b = Active) (bids ?s1)) ?s1 = (Inr u, s')"
    using assms(2)
    by (auto simp: cancelAuctionTxn_def findOneAndUpdate_def Let_def
             split: prod.splits option.splits sum.splits)
  then obtain u where "forEach (cancelBid aid (now env))
          (filter (\<lambda>b. auctionId b = aid \<and> status b = Active) (bids ?s1)) ?s1 = (Inr u, s')" ..
  then have "auctions s' = auctions ?s1"
    by (rule forEach_auctions) (rule cancelBid_auctions)
  moreover have "roundInv ?s1"
    using assms(1) by (rule roundInv_update) (simp_all add: auctionClamped_iff)
  ultimately show ?thesis by (rule roundInv_same [rotated])
qed

lemma withdrawBidTxn_round:
  assumes "roundInv s" "withdrawBidTxn aid uid env s = (Inr r, s')"
  shows "roundInv s'"
proof -
  from withdrawBidTxn_success [OF assms(2)]
  have "auctions s' = auctions (s\<lparr>auctions := updateFirst (\<lambda>a. a_id a = aid)
                        (\<lambda>a. a\<lparr>a_updatedAt := now env, version := version a + 1\<rparr>) (auctions s)\<rparr>)"
    by auto
  moreover have "roundInv (s\<lparr>auctions := updateFirst (\<lambda>a. a_id a = aid)
                        (\<lambda>a. a\<lparr>a_updatedAt := now env, version := version a + 1\<rparr>) (auctions s)\<rparr>)"
    using assms(1) by (rule roundInv_update) (simp_all add: auctionClamped_iff)
  ultimately show ?thesis by (rule roundInv_same [rotated])
qed

subsection \<open>What a successful bid writes\<close>

lemma openRoundEndsAt_Some:
  "openRoundEndsAt a = Some cur \<longleftrightarrow>
     state a = Running \<and> roundState a = Some Open \<and> roundEndsAt a = Some cur"
  by (auto simp: openRoundEndsAt_def)

lemma placeBidWrites_success:
  assumes "placeBidWrites aid uid newAmount env auction cur existing delta s = (Inr (a', b'), s')"
  shows "\<exists>s2 a2.
     (\<exists>u. find (\<lambda>u. u_id u = uid \<and> available (balance u) \<ge> delta) (users s) = Some u)
     \<and> writeBid aid uid newAmount env existing
          (s\<lparr>users := updateFirst (\<lambda>u. u_id u = uid \<and> available (balance u) \<ge> delta)
                        (reserveFunds delta) (users s)\<rparr>) = (Inr b', s2)
     \<and> find (\<lambda>a. a_id a = aid \<and> state a = Running \<and> roundState a = Some Open) (auctions s)
          = Some a2
     \<and> a' = a2\<lparr>a_updatedAt := now env,
               roundEndsAt := maxMerge (roundEndsAt a2) (antiSnipeEndsAt auction cur (now env)),
               version := version a2 + 1\<rparr>
     \<and> s' = (insertLedger
              [\<lparr>l_createdAt = now env, l_userId = uid, l_type = Reserve,
                l_amount = delta, l_auctionId = Some aid,
                meta = [(''bidId'', MetaString (b_id b'))]\<rparr>] s2)
            \<lparr>auctions := updateFirst
                 (\<lambda>a. a_id a = aid \<and> state a = Running \<and> roundState a = Some Open)
                 (\<lambda>a. a\<lparr>a_updatedAt := now env,
                        roundEndsAt := maxMerge (roundEndsAt a) (antiSnipeEndsAt auction cur (now env)),
                        version := version a + 1\<rparr>)
                 (auctions s)\<rparr>"
proof -
  let ?s1 = "s\<lparr>users := updateFirst (\<lambda>u. u_id u = uid \<and> available (balance u) \<ge> delta)
                        (reserveFunds delta) (users s)\<rparr>"
  obtain u where u: "find (\<lambda>u. u_id u = uid \<and> available (balance u) \<ge> delta) (users s) = Some u"
    using assms by (auto simp: placeBidWrites_def findOneAndUpdate_def split: option.splits)
  obtain s2 where w: "writeBid aid uid newAmount env existing ?s1 = (Inr b', s2)"
    and rest: "(case findOneAndUpdate
                         (\<lambda>a. a_id a = aid \<and> state a = Running \<and> roundState a = Some Open)
                         (\<lambda>a. a\<lparr>a_updatedAt := now env,
                                roundEndsAt := maxMerge (roundEndsAt a) (antiSnipeEndsAt auction cur (now env)),
                                version := version a + 1\<rparr>)
                         (auctions s2) of
                    (None, auctions') \<Rightarrow>
                      (Inl (AppError NOT_OPEN ''Auction is not open for bids'' 409),
                       (insertLedger
                          [\<lparr>l_createdAt = now env, l_userId = uid, l_type = Reserve,
                            l_amount = delta, l_auctionId = Some aid,
                            meta = [(''bidId'', MetaString (b_id b'))]\<rparr>] s2)\<lparr>auctions := auctions'\<rparr>)
                  | (Some updatedAuction, auctions') \<Rightarrow>
                      (Inr (updatedAuction, b'), (insertLedger
                          [\<lparr>l_createdAt = now env, l_userId = uid, l_type = Reserve,
                            l_amount = delta, l_auctionId = Some aid,
                            meta = [(''bidId'', MetaString (b_id b'))]\<rparr>] s2)\<lparr>auctions := auctions'\<rparr>))
               = (Inr (a', b'), s')"
    using assms u
    by (auto simp: placeBidWrites_def findOneAndUpdate_def Let_def
             split: sum.splits prod.splits option.splits)
  have au: "auctions s2 = auctions s"
    using writeBid_auctions [OF w] by simp
  obtain a2 where a2: "find (\<lambda>a. a_id a = aid \<and> state a = Running \<and> roundState a = Some Open)
                         (auctions s) = Some a2"
    using rest unfolding au by (auto simp: findOneAndUpdate_def split: option.splits)
  show ?thesis
    using u w a2 rest unfolding au
    by (intro exI [of _ s2] exI [of _ a2]) (auto simp: findOneAndUpdate_def)
qed

lemma placeBidTxn_success:
  assumes "placeBidTxn aid uid newAmount env s = (Inr (a', b'), s')"
  shows "\<exists>auction cur.
     find (\<lambda>a. a_id a = aid) (auctions s) = Some auction
     \<and> openRoundEndsAt auction = Some cur \<and> now env < cur
     \<and> activeAmount aid uid s < newAmount
     \<and> placeBidWrites aid uid newAmount env auction cur
          (find (\<lambda>b. auctionId b = aid \<and> userId b = uid) (bids s))
          (newAmount - activeAmount aid uid s) s = (Inr (a', b'), s')"
  using assms
  by (auto simp: placeBidTxn_def activeAmount_def Let_def split: option.splits if_splits)

lemma antiSnipeEndsAt_clamped:
  "endsAt auction = Some e \<Longrightarrow> antiSnipeEndsAt auction cur t \<le> e"
  by (simp add: antiSnipeEndsAt_def Let_def)

lemma antiSnipeEndsAt_outside_window:
  "antiSnipeWindowMs (config auction) < cur - t \<Longrightarrow> antiSnipeEndsAt auction cur t \<le> cur"
  by (simp add: antiSnipeEndsAt_def Let_def split: option.splits)

lemma placeBidTxn_round:
  assumes "roundInv s" "placeBidTxn aid uid newAmount env s = (Inr r, s')"
  shows "roundInv s'"
proof -
  obtain a' b' where r: "r = (a', b')" by (cases r)
  from placeBidTxn_success [OF assms(2) [unfolded r]] obtain auction cur where
    f: "find (\<lambda>a. a_id a = aid) (auctions s) = Some auction"
    and o: "openRoundEndsAt auction = Some cur"
    and w: "placeBidWrites aid uid newAmount env auction cur
          (find (\<lambda>b. auctionId b = aid \<and> userId b = uid) (bids s))
          (newAmount - activeAmount aid uid s) s = (Inr (a', b'), s')"
    by blast
  let ?P = "\<lambda>a. a_id a = aid \<and> state a = Running \<and> roundState a = Some Open"
  let ?f = "\<lambda>a. a\<lparr>a_updatedAt := now env,
                        roundEndsAt := maxMerge (roundEndsAt a) (antiSnipeEndsAt auction cur (now env)),
                        version := version a + 1\<rparr>"
  from placeBidWrites_success [OF w]
  have au: "auctions s' = updateFirst ?P ?f (auctions s)"
    by auto
  have fp: "find ?P (auctions s) = Some auction"
    using find_stronger [OF f, of "\<lambda>a. state a = Running \<and> roundState a = Some Open"] o
    by (simp add: openRoundEndsAt_Some)
  have cl: "\<forall>a \<in> set (auctions s). auctionClamped a"
    using assms(1) by (simp add: roundInv_def clampInv_def)
  have "auction \<in> set (auctions s)" using find_SomeD [OF f] by simp
  then have "auctionClamped auction" using cl by simp
  then have "auctionClamped (?f auction)"
    using antiSnipeEndsAt_clamped [of auction _ cur "now env"]
    by (auto simp: auctionClamped_iff maxMerge_def split: option.splits)
  with fp cl have "\<forall>a \<in> set (updateFirst ?P ?f (auctions s)). auctionClamped a"
    by (rule updateFirst_pres_first)
  moreover have "distinct (map a_id (updateFirst ?P ?f (auctions s)))"
    using assms(1) by (simp add: roundInv_def auctionIdsDistinct_def updateFirst_map)
  ultimately show ?thesis
    unfolding roundInv_def clampInv_def auctionIdsDistinct_def au by simp
qed

subsection \<open>Settlement keeps the round inside the auction\<close>

lemma finishRound_round:
  assumes "roundInv s"
    and "find (\<lambda>a. a_id a = aid \<and> state a = Running \<and> roundState a = Some Closing
                     \<and> closingToken a = Some token) (auctions s) = Some auction"
    and "finishRound aid token auction t remainingQty price n s = (Inr logs, s')"
  shows "roundInv s'"
proof -
  let ?P = "\<lambda>a. a_id a = aid \<and> state a = Running \<and> closingToken a = Some token"
  have strong: "find (\<lambda>a. a_id a = aid \<and> (state a = Running \<and> roundState a = Some Closing
                     \<and> closingToken a = Some token)) (auctions s) = Some auction"
    using assms(2) by simp
  have weak: "find (\<lambda>a. a_id a = aid \<and> (state a = Running \<and> closingToken a = Some token))
                (auctions s) = Some auction"
  proof -
    have "auction \<in> set (auctions s)" "a_id auction = aid" "state auction = Running"
      "closingToken auction = Some token"
      using find_SomeD [OF assms(2)] by simp_all
    then obtain x where x: "find (\<lambda>a. a_id a = aid \<and> (state a = Running \<and> closingToken a = Some token))
                (auctions s) = Some x"
      by (cases "find (\<lambda>a. a_id a = aid \<and> (state a = Running \<and> closingToken a = Some token))
                (auctions s)") (auto simp: find_None_iff)
    have "distinct (map a_id (auctions s))"
      using assms(1) by (simp add: roundInv_def auctionIdsDistinct_def)
    from find_distinct_key [OF this x strong] x show ?thesis by simp
  qed
  have cl: "\<forall>a \<in> set (auctions s). auctionClamped a"
    using assms(1) by (simp add: roundInv_def clampInv_def)
  have di: "distinct (map a_id (auctions s))"
    using assms(1) by (simp add: roundInv_def auctionIdsDistinct_def)
  consider (rolled) f where "s' = s\<lparr>auctions := updateFirst ?P f (auctions s)\<rparr>"
        "\<And>a. a_id (f a) = a_id a"
        "\<exists>nextEndsAt. roundEndsAt (f auction) = Some nextEndsAt \<and> endsAt (f auction) = endsAt auction
               \<and> (\<forall>e. endsAt auction = Some e \<longrightarrow> nextEndsAt \<le> e)"
    | (ended) u s1 f where
        "forEach (refundLostBid aid t)
           (filter (\<lambda>b. auctionId b = aid \<and> status b = Active) (bids s)) s = (Inr u, s1)"
        "s' = s1\<lparr>auctions := updateFirst ?P f (auctions s1)\<rparr>"
        "\<And>a. a_id (f a) = a_id a" "\<And>a. roundEndsAt (f a) = None"
    using assms(3)
    by (auto simp: finishRound_def updateOne_def Let_def
             split: if_splits sum.splits prod.splits option.splits)
  then show ?thesis
  proof cases
    case rolled
    have "auctionClamped (f auction)"
      using rolled(3) by (auto simp: auctionClamped_iff)
    with weak cl have "\<forall>a \<in> set (updateFirst ?P f (auctions s)). auctionClamped a"
      by (intro updateFirst_pres_first [where x = auction]) simp_all
    moreover have "distinct (map a_id (updateFirst ?P f (auctions s)))"
      using di rolled(2) by (simp add: updateFirst_map)
    ultimately show ?thesis
      unfolding rolled(1) roundInv_def clampInv_def auctionIdsDistinct_def by simp
  next
    case ended
    have "auctions s1 = auctions s"
      using ended(1) by (rule forEach_auctions) (rule refundLostBid_auctions)
    then have "roundInv s1" by (rule roundInv_same [OF assms(1)])
    then show ?thesis unfolding ended(2)
      by (rule roundInv_update) (simp_all add: ended(3,4) auctionClamped_iff)
  qed
qed

lemma settleTxn_round:
  assumes "roundInv s" "settleTxn aid token env s = (Inr logs, s')"
  shows "roundInv s'"
proof (cases "find (\<lambda>a. a_id a = aid \<and> state a = Running \<and> roundState a = Some Closing
                     \<and> closingToken a = Some token) (auctions s)")
  case None
  then show ?thesis using assms by (simp add: settleTxn_def)
next
  case (Some auction)
  let ?wbs = "roundWinnerBids aid auction s"
  let ?price = "roundClearingPrice ?wbs"
  let ?ws = "settleWinners auction ?wbs ?price"
  obtain rd u s2 where loop: "forEach (settleWinner aid auction (now env) ?price) ?ws
                            (s\<lparr>rounds := rounds s @ [rd]\<rparr>) = (Inr u, s2)"
    and fin: "finishRound aid token auction (now env)
                (max 0 (totalQuantity auction - awardedCount auction)) ?price (int (length ?ws)) s2
              = (Inr logs, s')"
    using assms(2) Some
    by (auto simp: settleTxn_def insertRound_def Let_def split: if_splits sum.splits prod.splits)
  have au: "auctions s2 = auctions s"
    using forEach_auctions [OF loop settleWinner_auctions] by simp
  then have "roundInv s2" by (rule roundInv_same [OF assms(1)])
  then show ?thesis
    using _ fin by (rule finishRound_round) (simp add: au Some)
qed

lemma exec_round: "roundInv s \<Longrightarrow> roundInv (exec opn s)"
proof (cases opn)
  case (CreateUser newId t)
  then show "roundInv s \<Longrightarrow> ?thesis"
    by (simp add: roundInv_same [OF _ createUser_auctions])
next
  case (TopupUser env uid amt)
  assume inv: "roundInv s"
  have "roundInv (snd (withTxn False (\<lambda>attempt. topupUserTxn uid amt (env attempt)) s))"
    using inv by (rule withTxn_invariant) (rule roundInv_same [OF inv topupUserTxn_auctions])
  then show ?thesis using TopupUser inv by (simp add: topupUser_def)
next
  case (CreateAuction newId t input)
  then show "roundInv s \<Longrightarrow> ?thesis" by (simp add: createAuction_round)
next
  case (StartAuction env aid)
  assume inv: "roundInv s"
  have "roundInv (snd (withTxn False (\<lambda>attempt. startAuctionTxn aid (env attempt)) s))"
    using inv by (rule withTxn_invariant) (rule startAuctionTxn_round [OF inv])
  then show ?thesis using StartAuction by (simp add: startAuction_def)
next
  case (CancelAuction env aid)
  assume inv: "roundInv s"
  have "roundInv (snd (withTxn False (\<lambda>attempt. cancelAuctionTxn aid (env attempt)) s))"
    using inv by (rule withTxn_invariant) (rule cancelAuctionTxn_round [OF inv])
  then show ?thesis using CancelAuction by (simp add: cancelAuction_def)
next
  case (PlaceBid env aid uid newAmount)
  assume inv: "roundInv s"
  have "roundInv (snd (withTxn True (\<lambda>attempt. placeBidTxn aid uid newAmount (env attempt)) s))"
    using inv by (rule withTxn_invariant) (rule placeBidTxn_round [OF inv])
  then show ?thesis using PlaceBid inv by (simp add: placeBid_def)
next
  case (WithdrawBid env aid uid)
  assume inv: "roundInv s"
  have "roundInv (snd (withTxn False (\<lambda>attempt. withdrawBidTxn aid uid (env attempt)) s))"
    using inv by (rule withTxn_invariant) (rule withdrawBidTxn_round [OF inv])
  then show ?thesis using WithdrawBid by (simp add: withdrawBid_def)
next
  case (LockDueRound aid token t)
  then show "roundInv s \<Longrightarrow> ?thesis" by (simp add: lockDueRound_round)
next
  case (SettleClosingAuction env aid token)
  assume inv: "roundInv s"
  have "snd (settleClosingAuction env aid token s)
        = snd (withTxn False (\<lambda>attempt. settleTxn aid token (env attempt)) s)"
    by (simp add: settleClosingAuction_def split: prod.splits sum.splits)
  moreover have "roundInv (snd (withTxn False (\<lambda>attempt. settleTxn aid token (env attempt)) s))"
    using inv by (rule withTxn_invariant) (rule settleTxn_round [OF inv])
  ultimately show ?thesis using SettleClosingAuction by simp
qed

lemma run_round: "roundInv (run ops emptyStore)"
  using roundInv_empty by (rule run_invariant) (rule exec_round)

lemma placeBid_success:
  assumes "placeBid env aid uid newAmount s = (Inr r, s')"
  obtains n where "placeBidTxn aid uid newAmount (env n) s = (Inr r, s')"
proof (cases "\<not> isSafeInteger newAmount \<or> newAmount \<le> 0")
  case True
  then show ?thesis using assms by (simp add: placeBid_def)
next
  case False
  then have "withTxn True (\<lambda>attempt. placeBidTxn aid uid newAmount (env attempt)) s = (Inr r, s')"
    using assms by (simp add: placeBid_def)
  then show ?thesis using that by (cases rule: withTxn_cases) simp_all
qed

lemma placeBidTxn_no_extension:
  assumes "placeBidTxn aid uid newAmount env s = (Inr (a', b'), s')"
    and "find (\<lambda>x. a_id x = aid) (auctions s) = Some a0"
    and "\<forall>r. roundEndsAt a0 = Some r \<longrightarrow> antiSnipeWindowMs (config a0) < r - now env"
  shows "roundEndsAt a' = roundEndsAt a0
       \<and> map roundEndsAt (auctions s') = map roundEndsAt (auctions s)"
proof -
  from placeBidTxn_success [OF assms(1)] assms(2) obtain cur where
    o: "openRoundEndsAt a0 = Some cur"
    and w: "placeBidWrites aid uid newAmount env a0 cur
          (find (\<lambda>b. auctionId b = aid \<and> userId b = uid) (bids s))
          (newAmount - activeAmount aid uid s) s = (Inr (a', b'), s')"
    by auto
  let ?P = "\<lambda>a. a_id a = aid \<and> state a = Running \<and> roundState a = Some Open"
  let ?f = "\<lambda>a. a\<lparr>a_updatedAt := now env,
                        roundEndsAt := maxMerge (roundEndsAt a) (antiSnipeEndsAt a0 cur (now env)),
                        version := version a + 1\<rparr>"
  have fp: "find ?P (auctions s) = Some a0"
    using find_stronger [OF assms(2), of "\<lambda>a. state a = Running \<and> roundState a = Some Open"] o
    by (simp add: openRoundEndsAt_Some)
  from placeBidWrites_success [OF w] fp
  have a': "a' = ?f a0" and au: "auctions s' = updateFirst ?P ?f (auctions s)"
    by auto
  have cur: "roundEndsAt a0 = Some cur" using o by (simp add: openRoundEndsAt_Some)
  then have "antiSnipeEndsAt a0 cur (now env) \<le> cur"
    using assms(3) by (intro antiSnipeEndsAt_outside_window) simp
  then have keep: "roundEndsAt (?f a0) = roundEndsAt a0"
    using cur by (simp add: maxMerge_def)
  have "map roundEndsAt (updateFirst ?P ?f (auctions s)) = map roundEndsAt (auctions s)"
    using fp keep by (rule updateFirst_map_first)
  then show ?thesis using keep a' au by simp
qed

text \<open>
  Claim C8. In every store reached from the empty store, an auction that has both a
  deadline \<open>endsAt\<close> and a current \<open>roundEndsAt\<close> has \<open>roundEndsAt \<le> endsAt\<close>; this
  covers the start, a bid with its anti-snipe extension and the roll to the next round.
  And with \<open>antiSnipeWindowMs = 0\<close>, a successful \<open>placeBid\<close> leaves \<open>roundEndsAt\<close> as
  it was, on the auction it returns and in the store.
\<close>

theorem roundEndsAt_clamped:
  "(a \<in> set (auctions (run ops emptyStore)) \<and> roundEndsAt a = Some r \<and> endsAt a = Some e
      \<longrightarrow> r \<le> e)
   \<and> (placeBid env aid uid newAmount s = (Inr (a', b'), s')
       \<and> find (\<lambda>x. a_id x = aid) (auctions s) = Some a0
       \<and> antiSnipeWindowMs (config a0) = 0
      \<longrightarrow> roundEndsAt a' = roundEndsAt a0
          \<and> map roundEndsAt (auctions s') = map roundEndsAt (auctions s))"
proof (rule conjI; rule impI)
  assume "a \<in> set (auctions (run ops emptyStore)) \<and> roundEndsAt a = Some r \<and> endsAt a = Some e"
  then show "r \<le> e"
    using run_round [of ops] by (auto simp: roundInv_def clampInv_def auctionClamped_iff)
next
  assume h: "placeBid env aid uid newAmount s = (Inr (a', b'), s')
       \<and> find (\<lambda>x. a_id x = aid) (auctions s) = Some a0
       \<and> antiSnipeWindowMs (config a0) = 0"
  then obtain n where t: "placeBidTxn aid uid newAmount (env n) s = (Inr (a', b'), s')"
    by (auto elim: placeBid_success)
  from h have f: "find (\<lambda>x. a_id x = aid) (auctions s) = Some a0"
    and z: "antiSnipeWindowMs (config a0) = 0" by blast+
  from placeBidTxn_success [OF t] f z
  have "\<forall>r. roundEndsAt a0 = Some r \<longrightarrow> antiSnipeWindowMs (config a0) < r - now (env n)"
    by (auto simp: openRoundEndsAt_Some)
  with t f show "roundEndsAt a' = roundEndsAt a0
          \<and> map roundEndsAt (auctions s') = map roundEndsAt (auctions s)"
    by (rule placeBidTxn_no_extension)
qed

text \<open>
  An auction with a deadline at 8100 and a round that ends at 5100: a bid at 200 extends
  the round to the deadline and no further. An auction without window: a bid one
  millisecond before the end of the round, at 5099, leaves the end at 5100.
\<close>

theorem roundEndsAt_clamped_witness:
  "hd (auctions deadlineStore) \<in> set (auctions deadlineStore)
   \<and> roundEndsAt (hd (auctions deadlineStore)) = Some 8100
   \<and> endsAt (hd (auctions deadlineStore)) = Some 8100
   \<and> \<not> isl (fst (placeBid (envAt 5099 ''b1'') ''a3'' ''u1'' 100 noWindowStore))
   \<and> antiSnipeWindowMs (config (hd (auctions noWindowStore))) = 0
   \<and> map roundEndsAt (auctions noWindowStore) = [Some 5100]
   \<and> map roundEndsAt (auctions (snd (placeBid (envAt 5099 ''b1'') ''a3'' ''u1'' 100 noWindowStore)))
       = [Some 5100]"
proof -
  let ?a = "hd (auctions deadlineStore)"
  have m: "?a \<in> set (auctions deadlineStore)" by code_simp
  have r: "roundEndsAt ?a = Some 8100" by code_simp
  have e: "endsAt ?a = Some 8100" by code_simp
  have "?a \<in> set (auctions
          (run [CreateUser ''u1'' 0, TopupUser (envAt 1 []) ''u1'' 1000,
          CreateAuction ''a2'' 10
            \<lparr>in_title = ''gift'', in_totalQuantity = 2,
             in_config = Some \<lparr>in_roundDurationMs = Some 5000, in_winnersPerRound = Some 1,
                               in_antiSnipeWindowMs = None, in_antiSnipeExtendMs = None,
                               in_maxWinsPerUser = None, in_maxDurationMs = Some 8000,
                               in_maxConsecutiveEmptyRounds = None\<rparr>\<rparr>,
          StartAuction (envAt 100 []) ''a2'',
          PlaceBid (envAt 200 ''b1'') ''a2'' ''u1'' 100] emptyStore))"
    using m by (simp add: deadlineStore_def)
  with r e have le: "(8100::int) \<le> 8100"
    by (intro roundEndsAt_clamped [THEN conjunct1, rule_format]) blast
  let ?p = "placeBid (envAt 5099 ''b1'') ''a3'' ''u1'' 100 noWindowStore"
  have i: "\<not> isl (fst ?p)" by code_simp
  then have p: "?p = (Inr (fst (projr (fst ?p)), snd (projr (fst ?p))), snd ?p)"
    by (cases "fst ?p") (simp_all add: prod_eq_iff)
  have f: "find (\<lambda>x. a_id x = ''a3'') (auctions noWindowStore) = Some (hd (auctions noWindowStore))"
    by code_simp
  have z: "antiSnipeWindowMs (config (hd (auctions noWindowStore))) = 0" by code_simp
  have "map roundEndsAt (auctions (snd ?p)) = map roundEndsAt (auctions noWindowStore)"
    using roundEndsAt_clamped [THEN conjunct2, rule_format, OF conjI [OF p conjI [OF f z]]]
    by blast
  moreover have b: "map roundEndsAt (auctions noWindowStore) = [Some 5100]" by code_simp
  ultimately show ?thesis using m r e i z by simp
qed

section \<open>Successive bids of one user\<close>

text \<open>
  Claim C6 does not hold as stated: a withdrawal resets the amount that the next bid has
  to exceed. The first user bids 100, withdraws, and bids 50: both bids are accepted, and the second
  amount is not above the first.
\<close>

theorem placeBid_monotone_counterexample:
  "\<not> isl (fst (placeBid (envAt 200 ''b1'') ''a1'' ''u1'' 100 startedStore))
   \<and> amount (snd (projr (fst (placeBid (envAt 200 ''b1'') ''a1'' ''u1'' 100 startedStore)))) = 100
   \<and> snd (placeBid (envAt 200 ''b1'') ''a1'' ''u1'' 100 startedStore) = biddingStore
   \<and> \<not> isl (fst (withdrawBid (envAt 300 []) ''a1'' ''u1'' biddingStore))
   \<and> snd (withdrawBid (envAt 300 []) ''a1'' ''u1'' biddingStore) = withdrawnStore
   \<and> \<not> isl (fst (placeBid (envAt 400 ''b9'') ''a1'' ''u1'' 50 withdrawnStore))
   \<and> amount (snd (projr (fst (placeBid (envAt 400 ''b9'') ''a1'' ''u1'' 50 withdrawnStore)))) = 50
   \<and> \<not> amount (snd (projr (fst (placeBid (envAt 200 ''b1'') ''a1'' ''u1'' 100 startedStore))))
        < amount (snd (projr (fst (placeBid (envAt 400 ''b9'') ''a1'' ''u1'' 50 withdrawnStore))))"
proof -
  have 1: "\<not> isl (fst (placeBid (envAt 200 ''b1'') ''a1'' ''u1'' 100 startedStore))"
    by code_simp
  have 2: "amount (snd (projr (fst (placeBid (envAt 200 ''b1'') ''a1'' ''u1'' 100 startedStore)))) = 100"
    by code_simp
  have 3: "snd (placeBid (envAt 200 ''b1'') ''a1'' ''u1'' 100 startedStore) = biddingStore"
    by (simp add: biddingStore_def startedStore_def run_def)
  have 4: "\<not> isl (fst (withdrawBid (envAt 300 []) ''a1'' ''u1'' biddingStore))"
    by code_simp
  have 5: "snd (withdrawBid (envAt 300 []) ''a1'' ''u1'' biddingStore) = withdrawnStore"
    by (simp add: withdrawnStore_def)
  have 6: "\<not> isl (fst (placeBid (envAt 400 ''b9'') ''a1'' ''u1'' 50 withdrawnStore))"
    by code_simp
  have 7: "amount (snd (projr (fst (placeBid (envAt 400 ''b9'') ''a1'' ''u1'' 50 withdrawnStore)))) = 50"
    by code_simp
  from 1 2 3 4 5 6 7 show ?thesis by simp
qed

section \<open>Raising an active bid\<close>

lemma find_updateFirst_same:
  "find P xs = Some e \<Longrightarrow> find Q xs = Some e \<Longrightarrow> P (f e)
     \<Longrightarrow> find P (updateFirst Q f xs) = Some (f e)"
proof (induction xs)
  case Nil
  then show ?case by simp
next
  case (Cons x xs)
  show ?case
  proof (cases "Q x")
    case True
    with Cons.prems show ?thesis by simp
  next
    case False
    have qe: "Q e" using find_SomeD [OF Cons.prems(2)] by simp
    with False have "x \<noteq> e" by auto
    with Cons.prems(1) False have "\<not> P x" by (auto split: if_splits)
    with Cons False show ?thesis by simp
  qed
qed


lemma find_append_new:
  "find P xs = None \<Longrightarrow> P x \<Longrightarrow> find P (xs @ [x]) = Some x"
  by (induction xs) (auto split: if_splits)

lemma writeBid_update_result:
  fixes Q :: "BidDoc \<Rightarrow> bool" and f :: "BidDoc \<Rightarrow> BidDoc"
  assumes fe: "find (\<lambda>b. auctionId b = aid \<and> userId b = uid) (bids s) = Some e"
    and x: "find (\<lambda>x. b_id x = b_id e \<and> Q x) (bids s) = Some x"
    and f: "\<And>y. auctionId (f y) = auctionId y \<and> userId (f y) = userId y"
    and d: "distinct (map b_id (bids s))"
  shows "x = e \<and> find (\<lambda>b. auctionId b = aid \<and> userId b = uid)
                    (updateFirst (\<lambda>x. b_id x = b_id e \<and> Q x) f (bids s)) = Some (f e)"
proof -
  have e: "e \<in> set (bids s)" "auctionId e = aid" "userId e = uid"
    using find_SomeD [OF fe] by simp_all
  have xs: "b_id x = b_id e" "x \<in> set (bids s)"
    using find_SomeD [OF x] by simp_all
  have xe: "x = e"
    using d xs e by (intro distinct_key_eq [of b_id "bids s"]) simp_all
  have "find (\<lambda>b. auctionId b = aid \<and> userId b = uid)
          (updateFirst (\<lambda>x. b_id x = b_id e \<and> Q x) f (bids s)) = Some (f e)"
    using fe x [unfolded xe] by (rule find_updateFirst_same) (simp add: f e)
  with xe show ?thesis by simp
qed

lemma writeBid_result:
  assumes "writeBid aid uid newAmount env existing s = (Inr b', s')"
    and "existing = find (\<lambda>b. auctionId b = aid \<and> userId b = uid) (bids s)"
  shows "amount b' = newAmount \<and> status b' = Active
       \<and> (distinct (map b_id (bids s))
            \<longrightarrow> auctionId b' = aid \<and> userId b' = uid
                \<and> find (\<lambda>b. auctionId b = aid \<and> userId b = uid) (bids s') = Some b')"
proof (cases existing)
  case None
  then have b': "b' = \<lparr>userId = uid, amount = newAmount, lastBidAt = now env,
                     b_id = newObjectId env, auctionId = aid, status = Active,
                     createdAt = now env, updatedAt = now env, settlement = None\<rparr>"
    and s': "s' = s\<lparr>bids := bids s @ [b']\<rparr>"
    using assms(1) by (auto simp: writeBid_def insertBid_def Let_def split: if_splits)
  have "find (\<lambda>b. auctionId b = aid \<and> userId b = uid) (bids s @ [b']) = Some b'"
    using None assms(2) b' by (intro find_append_new) simp_all
  then show ?thesis using b' s' by simp
next
  case (Some e)
  then have fe: "find (\<lambda>b. auctionId b = aid \<and> userId b = uid) (bids s) = Some e"
    using assms(2) by simp
  have e: "auctionId e = aid" "userId e = uid"
    using find_SomeD [OF fe] by simp_all
  show ?thesis
  proof (cases "status e = Active")
    case True
    let ?f = "\<lambda>x. x\<lparr>amount := newAmount, lastBidAt := now env, updatedAt := now env\<rparr>"
    obtain x where x: "find (\<lambda>x. b_id x = b_id e \<and> status x = Active) (bids s) = Some x"
      and b': "b' = ?f x"
      and s': "s' = s\<lparr>bids := updateFirst (\<lambda>x. b_id x = b_id e \<and> status x = Active) ?f (bids s)\<rparr>"
      using assms(1) Some True
      by (auto simp: writeBid_def findOneAndUpdate_def split: option.splits)
    have "status x = Active" using find_SomeD [OF x] by simp
    then have 1: "amount b' = newAmount \<and> status b' = Active" using b' by simp
    have 2: "distinct (map b_id (bids s)) \<Longrightarrow> auctionId b' = aid \<and> userId b' = uid
                \<and> find (\<lambda>b. auctionId b = aid \<and> userId b = uid) (bids s') = Some b'"
      using writeBid_update_result [OF fe x, of ?f] b' s' e by simp
    from 1 2 show ?thesis by blast
  next
    case False
    let ?f = "\<lambda>x. x\<lparr>status := Active, amount := newAmount, lastBidAt := now env,
                           updatedAt := now env\<rparr>"
    obtain x where x: "find (\<lambda>x. b_id x = b_id e \<and> status x = Withdrawn) (bids s) = Some x"
      and b': "b' = ?f x"
      and s': "s' = s\<lparr>bids := updateFirst (\<lambda>x. b_id x = b_id e \<and> status x = Withdrawn) ?f (bids s)\<rparr>"
      using assms(1) Some False
      by (auto simp: writeBid_def findOneAndUpdate_def split: option.splits)
    have 1: "amount b' = newAmount \<and> status b' = Active" using b' by simp
    have 2: "distinct (map b_id (bids s)) \<Longrightarrow> auctionId b' = aid \<and> userId b' = uid
                \<and> find (\<lambda>b. auctionId b = aid \<and> userId b = uid) (bids s') = Some b'"
      using writeBid_update_result [OF fe x, of ?f] b' s' e by simp
    from 1 2 show ?thesis by blast
  qed
qed

lemma placeBidTxn_invalid:
  assumes "find (\<lambda>a. a_id a = aid) (auctions s) = Some auction"
    and "openRoundEndsAt auction = Some r" "now env < r"
    and "find (\<lambda>b. auctionId b = aid \<and> userId b = uid) (bids s) = Some e" "status e = Active"
    and "newAmount \<le> amount e"
  shows "placeBidTxn aid uid newAmount env s
           = (Inl (AppError INVALID_INPUT ''New amount must be greater than previous amount'' 400), s)"
  using assms by (simp add: placeBidTxn_def Let_def)

text \<open>
  Claim C6, amended. A successful \<open>placeBid\<close> has a new amount strictly above the amount
  of the user's bid in the auction if that bid is active, and above 0 otherwise (no bid
  yet, or a withdrawn one); the bid it returns is active at the new amount, and when the
  bid ids of the store are distinct it is the user's bid in the store afterwards. A call
  with an amount not above that of the user's active bid fails with \<open>INVALID_INPUT\<close>
  when the auction is open and the round has not ended.
\<close>

theorem placeBid_raises_active_bid:
  "(placeBid env aid uid newAmount s = (Inr (a', b'), s')
      \<longrightarrow> activeAmount aid uid s < newAmount \<and> amount b' = newAmount \<and> status b' = Active
          \<and> (distinct (map b_id (bids s))
                \<longrightarrow> find (\<lambda>b. auctionId b = aid \<and> userId b = uid) (bids s') = Some b'
                    \<and> activeAmount aid uid s' = newAmount))
   \<and> (find (\<lambda>a. a_id a = aid) (auctions s) = Some auction
       \<and> openRoundEndsAt auction = Some r \<and> now (env 1) < r
       \<and> find (\<lambda>b. auctionId b = aid \<and> userId b = uid) (bids s) = Some e \<and> status e = Active
       \<and> newAmount \<le> amount e
      \<longrightarrow> (\<exists>msg. placeBid env aid uid newAmount s = (Inl (AppError INVALID_INPUT msg 400), s)))"
proof (rule conjI; rule impI)
  assume "placeBid env aid uid newAmount s = (Inr (a', b'), s')"
  then obtain n where t: "placeBidTxn aid uid newAmount (env n) s = (Inr (a', b'), s')"
    by (rule placeBid_success)
  from placeBidTxn_success [OF t] obtain auction cur where
    gt: "activeAmount aid uid s < newAmount"
    and w: "placeBidWrites aid uid newAmount (env n) auction cur
          (find (\<lambda>b. auctionId b = aid \<and> userId b = uid) (bids s))
          (newAmount - activeAmount aid uid s) s = (Inr (a', b'), s')"
    by blast
  let ?s1 = "s\<lparr>users := updateFirst
               (\<lambda>u. u_id u = uid \<and> available (balance u) \<ge> newAmount - activeAmount aid uid s)
               (reserveFunds (newAmount - activeAmount aid uid s)) (users s)\<rparr>"
  from placeBidWrites_success [OF w] obtain s2 where
    wb: "writeBid aid uid newAmount (env n) (find (\<lambda>b. auctionId b = aid \<and> userId b = uid) (bids s))
           ?s1 = (Inr b', s2)"
    and bs: "bids s' = bids s2"
    by auto
  have res: "amount b' = newAmount \<and> status b' = Active
       \<and> (distinct (map b_id (bids ?s1))
            \<longrightarrow> auctionId b' = aid \<and> userId b' = uid
                \<and> find (\<lambda>b. auctionId b = aid \<and> userId b = uid) (bids s2) = Some b')"
    using wb by (rule writeBid_result) simp
  then have "distinct (map b_id (bids s))
                \<longrightarrow> find (\<lambda>b. auctionId b = aid \<and> userId b = uid) (bids s') = Some b'
                    \<and> activeAmount aid uid s' = newAmount"
    using bs by (simp add: activeAmount_def)
  with gt res show "activeAmount aid uid s < newAmount \<and> amount b' = newAmount \<and> status b' = Active
          \<and> (distinct (map b_id (bids s))
                \<longrightarrow> find (\<lambda>b. auctionId b = aid \<and> userId b = uid) (bids s') = Some b'
                    \<and> activeAmount aid uid s' = newAmount)"
    by blast
next
  assume h: "find (\<lambda>a. a_id a = aid) (auctions s) = Some auction
       \<and> openRoundEndsAt auction = Some r \<and> now (env 1) < r
       \<and> find (\<lambda>b. auctionId b = aid \<and> userId b = uid) (bids s) = Some e \<and> status e = Active
       \<and> newAmount \<le> amount e"
  show "\<exists>msg. placeBid env aid uid newAmount s = (Inl (AppError INVALID_INPUT msg 400), s)"
  proof (cases "\<not> isSafeInteger newAmount \<or> newAmount \<le> 0")
    case True
    then show ?thesis by (simp add: placeBid_def)
  next
    case False
    from h have "placeBidTxn aid uid newAmount (env 1) s
           = (Inl (AppError INVALID_INPUT ''New amount must be greater than previous amount'' 400), s)"
      by (intro placeBidTxn_invalid [of aid s auction r _ uid e]) simp_all
    then have "withTxn True (\<lambda>attempt. placeBidTxn aid uid newAmount (env attempt)) s
           = (Inl (AppError INVALID_INPUT ''New amount must be greater than previous amount'' 400), s)"
      by (rule withTxn_first_fail) simp_all
    then show ?thesis using False by (simp add: placeBid_def)
  qed
qed

text \<open>
  On \<open>biddingStore\<close> the first user has an active bid of 100: raising it to 130 is
  accepted and leaves the bid at 130; bidding 100 again is refused.
\<close>

theorem placeBid_raises_active_bid_witness:
  "\<not> isl (fst (placeBid (envAt 400 ''b9'') ''a1'' ''u1'' 130 biddingStore))
   \<and> activeAmount ''a1'' ''u1'' biddingStore = 100
   \<and> distinct (map b_id (bids biddingStore))
   \<and> activeAmount ''a1'' ''u1'' (snd (placeBid (envAt 400 ''b9'') ''a1'' ''u1'' 130 biddingStore)) = 130
   \<and> isl (fst (placeBid (envAt 400 ''b9'') ''a1'' ''u1'' 100 biddingStore))
   \<and> snd (placeBid (envAt 400 ''b9'') ''a1'' ''u1'' 100 biddingStore) = biddingStore"
proof -
  let ?p = "placeBid (envAt 400 ''b9'') ''a1'' ''u1'' 130 biddingStore"
  have i: "\<not> isl (fst ?p)" by code_simp
  then have p: "?p = (Inr (fst (projr (fst ?p)), snd (projr (fst ?p))), snd ?p)"
    by (cases "fst ?p") (simp_all add: prod_eq_iff)
  have a: "activeAmount ''a1'' ''u1'' biddingStore = 100" by code_simp
  have d: "distinct (map b_id (bids biddingStore))" by code_simp
  have 1: "activeAmount ''a1'' ''u1'' (snd ?p) = 130"
    using placeBid_raises_active_bid [THEN conjunct1, rule_format, OF p] d by blast
  have f: "find (\<lambda>a. a_id a = ''a1'') (auctions biddingStore) = Some (hd (auctions biddingStore))"
    by code_simp
  have o: "openRoundEndsAt (hd (auctions biddingStore)) = Some 10200" by code_simp
  have n: "now (envAt 400 ''b9'' 1) < 10200" by code_simp
  have e: "find (\<lambda>b. auctionId b = ''a1'' \<and> userId b = ''u1'') (bids biddingStore)
             = Some (hd (bids biddingStore))" by code_simp
  have st: "status (hd (bids biddingStore)) = Active" by code_simp
  have le: "100 \<le> amount (hd (bids biddingStore))" by code_simp
  have "\<exists>msg. placeBid (envAt 400 ''b9'') ''a1'' ''u1'' 100 biddingStore
               = (Inl (AppError INVALID_INPUT msg 400), biddingStore)"
    using placeBid_raises_active_bid [THEN conjunct2, rule_format,
            of "''a1''" biddingStore "hd (auctions biddingStore)" 10200 "envAt 400 ''b9''"
               "''u1''" "hd (bids biddingStore)" 100]
      f o n e st le by blast
  then have 2: "isl (fst (placeBid (envAt 400 ''b9'') ''a1'' ''u1'' 100 biddingStore))
          \<and> snd (placeBid (envAt 400 ''b9'') ''a1'' ''u1'' 100 biddingStore) = biddingStore"
    by auto
  from i a d 1 2 show ?thesis by blast
qed

section \<open>What a settlement does to the winners\<close>

subsection \<open>Updates of a collection with unique keys\<close>

lemma updateFirst_by_key:
  assumes "distinct (map k xs)" "find (\<lambda>x. k x = i \<and> Q x) xs = Some x"
  shows "updateFirst (\<lambda>x. k x = i \<and> Q x) f xs = map (\<lambda>y. if k y = i then f y else y) xs"
  using assms
proof (induction xs)
  case Nil
  then show ?case by simp
next
  case (Cons y ys)
  show ?case
  proof (cases "k y = i")
    case True
    then have "\<forall>z \<in> set ys. k z \<noteq> i" using Cons.prems(1) by (auto simp: image_iff)
    then have id: "map (\<lambda>y. if k y = i then f y else y) ys = ys"
      by (simp add: map_idI)
    have "Q y"
    proof (rule ccontr)
      assume "\<not> Q y"
      then have "find (\<lambda>x. k x = i \<and> Q x) ys = Some x" using Cons.prems(2) by simp
      then have "x \<in> set ys" "k x = i" using find_SomeD by fastforce+
      with \<open>\<forall>z \<in> set ys. k z \<noteq> i\<close> show False by simp
    qed
    with True id show ?thesis by simp
  next
    case False
    with Cons show ?thesis by simp
  qed
qed




subsection \<open>What settling one winner writes\<close>

lemma settleWinner_success:
  assumes "settleWinner aid auction t price w s = (Inr u, s')"
  shows "\<exists>target x docs.
     find (\<lambda>b. b_id b = w_bidId w \<and> status b = Active) (bids s) = Some target
     \<and> \<not> giftSerialTaken target (w_giftSerial w) (bids s)
     \<and> find (\<lambda>u. u_id u = w_userId w \<and> w_amount w \<le> reserved (balance u)) (users s) = Some x
     \<and> s' = s\<lparr>bids := updateFirst (\<lambda>x. b_id x = w_bidId w \<and> status x = Active)
                         (\<lambda>x. x\<lparr>status := Won, updatedAt := t,
                                settlement := Some \<lparr>wonRound = currentRound auction,
                                   giftSerial = w_giftSerial w, clearingPrice = price,
                                   paid = w_paid w, refunded = w_refunded w, settledAt = t\<rparr>\<rparr>)
                         (bids s),
               users := updateFirst (\<lambda>u. u_id u = w_userId w \<and> w_amount w \<le> reserved (balance u))
                         (chargeWinner w) (users s),
               ledger := ledger s @ docs\<rparr>"
  using assms
  by (auto simp: settleWinner_def updateOne_def insertLedger_def Let_def
           split: option.splits if_splits)

lemma chargeWinner_id [simp]: "u_id (chargeWinner w u) = u_id u"
  by (simp add: chargeWinner_def)

lemma unreserveFunds_id [simp]: "u_id (unreserveFunds amt u) = u_id u"
  by (simp add: unreserveFunds_def)


lemma markWon_simps [simp]:
  "b_id (markWon auction t price w x) = b_id x"
  "auctionId (markWon auction t price w x) = auctionId x"
  "userId (markWon auction t price w x) = userId x"
  "amount (markWon auction t price w x) = amount x"
  "status (markWon auction t price w x) = Won"
  "settlement (markWon auction t price w x)
     = Some \<lparr>wonRound = currentRound auction, giftSerial = w_giftSerial w,
             clearingPrice = price, paid = w_paid w, refunded = w_refunded w, settledAt = t\<rparr>"
  by (simp_all add: markWon_def)

lemma bidKey_markWon [simp]: "bidKey (markWon auction t price w x) = bidKey x"
  by (simp add: bidKey_def)

lemma settleWinner_bids:
  assumes "settleWinner aid auction t price w s = (Inr u, s')" "distinct (map b_id (bids s))"
  shows "\<exists>target. target \<in> set (bids s) \<and> b_id target = w_bidId w \<and> status target = Active
       \<and> bids s' = map (\<lambda>b. if b_id b = w_bidId w then markWon auction t price w b else b) (bids s)"
proof -
  from settleWinner_success [OF assms(1)] obtain target where
    f: "find (\<lambda>b. b_id b = w_bidId w \<and> status b = Active) (bids s) = Some target"
    and b: "bids s' = updateFirst (\<lambda>x. b_id x = w_bidId w \<and> status x = Active)
                         (markWon auction t price w) (bids s)"
    by (auto simp: markWon_def [abs_def])
  have "bids s' = map (\<lambda>b. if b_id b = w_bidId w then markWon auction t price w b else b) (bids s)"
    unfolding b using assms(2) f by (rule updateFirst_by_key)
  then show ?thesis using find_SomeD [OF f] by auto
qed

lemma wonSerials_Cons:
  "wonSerials (b # bs) a
     = (if auctionId b = a \<and> status b = Won
        then [case settlement b of Some st \<Rightarrow> giftSerial st | None \<Rightarrow> 0] else [])
       @ wonSerials bs a"
  by (simp add: wonSerials_def)

lemma wonSerials_Nil [simp]: "wonSerials [] a = []"
  by (simp add: wonSerials_def)

lemma wonSerials_step:
  assumes "distinct (map b_id bs)" "target \<in> set bs" "status target = Active"
  shows "mset (wonSerials
                (map (\<lambda>b. if b_id b = b_id target then markWon auction t price w b else b) bs) a)
         = mset (wonSerials bs a)
           + (if auctionId target = a then {#w_giftSerial w#} else {#})"
  using assms(1,2)
proof (induction bs)
  case Nil
  then show ?case by simp
next
  case (Cons y ys)
  show ?case
  proof (cases "b_id y = b_id target")
    case True
    then have yt: "y = target"
      using Cons.prems by (auto simp: image_iff)
    have "\<forall>z \<in> set ys. b_id z \<noteq> b_id target"
      using Cons.prems(1) True by (auto simp: image_iff)
    then have "map (\<lambda>b. if b_id b = b_id target then markWon auction t price w b else b) ys = ys"
      by (simp add: map_idI)
    then show ?thesis
      using yt assms(3) by (simp add: wonSerials_Cons)
  next
    case False
    then have "target \<in> set ys" using Cons.prems(2) by auto
    with Cons False show ?thesis by (simp add: wonSerials_Cons)
  qed
qed

text \<open>The bids after the loop over the winners, when bid ids are unique.\<close>

lemma settle_loop_bids:
  assumes "forEach (settleWinner aid auction t price) ws s = (Inr u, s2)"
    and "distinct (map b_id (bids s))"
    and "\<forall>sw \<in> set ws. \<exists>b \<in> set (bids s). b_id b = w_bidId sw \<and> auctionId b = aid"
  shows "map bidKey (bids s2) = map bidKey (bids s)
       \<and> (\<forall>sw \<in> set ws. \<forall>b \<in> set (bids s2). b_id b = w_bidId sw \<longrightarrow> status b = Won)
       \<and> (\<forall>b \<in> set (bids s). \<forall>i. b_id b = i \<and> status b = Won
             \<longrightarrow> (\<forall>b' \<in> set (bids s2). b_id b' = i \<longrightarrow> status b' = Won))
       \<and> (\<forall>a. mset (wonSerials (bids s2) a)
               = mset (wonSerials (bids s) a)
                 + (if a = aid then mset (map w_giftSerial ws) else {#}))"
  using assms
proof (induction ws arbitrary: s)
  case Nil
  then have e: "s2 = s" by simp
  have "\<And>b b'. b \<in> set (bids s) \<Longrightarrow> b' \<in> set (bids s) \<Longrightarrow> b_id b' = b_id b \<Longrightarrow> b' = b"
    using Nil.prems(2) by (rule distinct_key_eq)
  then show ?case unfolding e by auto
next
  case (Cons sw rest)
  obtain r1 s1 where b: "settleWinner aid auction t price sw s = (r1, s1)"
    by (cases "settleWinner aid auction t price sw s")
  with Cons.prems(1) have b1: "settleWinner aid auction t price sw s = (Inr (), s1)"
    and rest: "forEach (settleWinner aid auction t price) rest s1 = (Inr u, s2)"
    by (auto split: sum.splits)
  let ?m = "\<lambda>b. if b_id b = w_bidId sw then markWon auction t price sw b else b"
  from settleWinner_bids [OF b1 Cons.prems(2)] obtain target where
    tg: "target \<in> set (bids s)" "b_id target = w_bidId sw" "status target = Active"
    and bs1: "bids s1 = map ?m (bids s)"
    by blast
  have key1: "map bidKey (bids s1) = map bidKey (bids s)"
    unfolding bs1 by (simp add: comp_def cong: map_cong)
  then have "map (fst \<circ> bidKey) (bids s1) = map (fst \<circ> bidKey) (bids s)"
    by (metis map_map)
  then have ids1: "map b_id (bids s1) = map b_id (bids s)"
    by (simp add: bidKey_def comp_def)
  have d1: "distinct (map b_id (bids s1))" using ids1 Cons.prems(2) by simp
  have aid_t: "auctionId target = aid"
  proof -
    from Cons.prems(3) obtain b where "b \<in> set (bids s)" "b_id b = w_bidId sw" "auctionId b = aid"
      by auto
    moreover from this tg Cons.prems(2) have "b = target"
      by (intro distinct_key_eq [of b_id "bids s"]) simp_all
    ultimately show ?thesis by simp
  qed
  have pre1: "\<forall>sw' \<in> set rest. \<exists>b \<in> set (bids s1). b_id b = w_bidId sw' \<and> auctionId b = aid"
  proof
    fix sw' assume "sw' \<in> set rest"
    with Cons.prems(3) obtain b where b: "b \<in> set (bids s)" "b_id b = w_bidId sw'" "auctionId b = aid"
      by auto
    then have "?m b \<in> set (bids s1)" unfolding bs1 by simp
    moreover have "b_id (?m b) = w_bidId sw'" "auctionId (?m b) = aid" using b by simp_all
    ultimately show "\<exists>b \<in> set (bids s1). b_id b = w_bidId sw' \<and> auctionId b = aid" by blast
  qed
  note IH = Cons.IH [OF rest d1 pre1]
  have won1: "\<forall>b \<in> set (bids s1). b_id b = w_bidId sw \<longrightarrow> status b = Won"
    unfolding bs1 by auto
  have keep1: "\<forall>b \<in> set (bids s). \<forall>i. b_id b = i \<and> status b = Won
             \<longrightarrow> (\<forall>b' \<in> set (bids s1). b_id b' = i \<longrightarrow> status b' = Won)"
  proof (intro ballI allI impI)
    fix b i b' assume b: "b \<in> set (bids s)" "b_id b = i \<and> status b = Won"
      and b': "b' \<in> set (bids s1)" "b_id b' = i"
    from b' obtain c where c: "c \<in> set (bids s)" "b' = ?m c" unfolding bs1 by auto
    then have "b_id c = i" using b'(2) by (simp split: if_splits)
    with b c(1) Cons.prems(2) have "c = b"
      by (intro distinct_key_eq [of b_id "bids s"]) simp_all
    then show "status b' = Won" using c(2) b(2) by simp
  qed
  have 1: "map bidKey (bids s2) = map bidKey (bids s)" using IH key1 by simp
  have 2: "\<forall>sw' \<in> set (sw # rest). \<forall>b \<in> set (bids s2). b_id b = w_bidId sw' \<longrightarrow> status b = Won"
  proof -
    have "\<forall>b \<in> set (bids s2). b_id b = w_bidId sw \<longrightarrow> status b = Won"
    proof (intro ballI impI)
      fix b assume b: "b \<in> set (bids s2)" "b_id b = w_bidId sw"
      have "?m target \<in> set (bids s1)" using tg(1) unfolding bs1 by simp
      moreover have "b_id (?m target) = w_bidId sw \<and> status (?m target) = Won" using tg(2) by simp
      ultimately show "status b = Won" using IH b by blast
    qed
    then show ?thesis using IH by simp
  qed
  have 3: "\<forall>b \<in> set (bids s). \<forall>i. b_id b = i \<and> status b = Won
             \<longrightarrow> (\<forall>b' \<in> set (bids s2). b_id b' = i \<longrightarrow> status b' = Won)"
  proof (intro ballI allI impI)
    fix b i b' assume b: "b \<in> set (bids s)" "b_id b = i \<and> status b = Won"
      and b': "b' \<in> set (bids s2)" "b_id b' = i"
    have "?m b \<in> set (bids s1)" using b(1) unfolding bs1 by simp
    moreover have "b_id (?m b) = i \<and> status (?m b) = Won" using b(2) by simp
    ultimately show "status b' = Won" using IH b' by blast
  qed
  have 4: "\<forall>a. mset (wonSerials (bids s2) a)
               = mset (wonSerials (bids s) a)
                 + (if a = aid then mset (map w_giftSerial (sw # rest)) else {#})"
  proof
    fix a
    have "mset (wonSerials (bids s1) a)
          = mset (wonSerials (bids s) a) + (if auctionId target = a then {#w_giftSerial sw#} else {#})"
      unfolding bs1 tg(2) [symmetric]
      using Cons.prems(2) tg(1,3) by (rule wonSerials_step)
    moreover have "mset (wonSerials (bids s2) a)
          = mset (wonSerials (bids s1) a) + (if a = aid then mset (map w_giftSerial rest) else {#})"
      using IH by blast
    ultimately show "mset (wonSerials (bids s2) a)
               = mset (wonSerials (bids s) a)
                 + (if a = aid then mset (map w_giftSerial (sw # rest)) else {#})"
      using aid_t by auto
  qed
  from 1 2 3 4 show ?case by blast
qed

subsection \<open>The winners computed from the store\<close>

lemma roundWinnerBids_distinct:
  assumes "distinct (map b_id (bids s))"
  shows "distinct (roundWinnerBids aid auction s)"
proof -
  have "distinct (bids s)" using assms by (simp add: distinct_map)
  then show ?thesis
    by (simp add: roundWinnerBids_def Let_def sortByRank_def)
qed


lemma roundWinnerBids_ids_distinct:
  assumes "distinct (map b_id (bids s))"
  shows "distinct (map b_id (roundWinnerBids aid auction s))"
proof -
  let ?wbs = "roundWinnerBids aid auction s"
  have sub: "\<And>b. b \<in> set ?wbs \<Longrightarrow> b \<in> set (bids s)"
    using roundWinnerBids_subset [of aid auction s] by auto
  have "inj_on b_id (set ?wbs)"
  proof (rule inj_onI)
    fix x y assume "x \<in> set ?wbs" "y \<in> set ?wbs" "b_id x = b_id y"
    then show "x = y"
      using sub assms by (intro distinct_key_eq [of b_id "bids s"]) simp_all
  qed
  then show ?thesis
    using roundWinnerBids_distinct [OF assms] by (simp add: distinct_map)
qed

lemma settleWinners_nth:
  "i < length wbs \<Longrightarrow>
     settleWinners auction wbs price ! i
       = \<lparr>w_userId = userId (wbs ! i), w_amount = amount (wbs ! i),
          w_giftSerial = awardedCount auction + int i + 1,
          w_paid = price, w_refunded = amount (wbs ! i) - price, w_bidId = b_id (wbs ! i)\<rparr>"
  by (simp add: settleWinners_def nth_enumerate_eq)

lemma settleWinners_length [simp]: "length (settleWinners auction wbs price) = length wbs"
  by (simp add: settleWinners_def)

lemma map_enumerate_snd:
  assumes "\<And>idx b. g (F idx b) = h b"
  shows "map (g \<circ> (\<lambda>(idx, b). F idx b)) (enumerate n xs) = map h xs"
  by (induction xs arbitrary: n) (simp_all add: assms)

lemma map_enumerate_fst:
  assumes "\<And>idx b. g (F idx b) = k idx"
  shows "map (g \<circ> (\<lambda>(idx, b). F idx b)) (enumerate n xs) = map k [n..<n + length xs]"
proof (induction xs arbitrary: n)
  case Nil
  then show ?case by simp
next
  case (Cons x xs)
  have e: "n + length (x # xs) = Suc n + length xs" by simp
  have "[n..<n + length (x # xs)] = n # [Suc n..<n + length (x # xs)]"
    by (rule upt_conv_Cons) simp
  then have u: "[n..<n + length (x # xs)] = n # [Suc n..<Suc n + length xs]"
    unfolding e .
  have "map (g \<circ> (\<lambda>(idx, b). F idx b)) (enumerate n (x # xs))
        = k n # map (g \<circ> (\<lambda>(idx, b). F idx b)) (enumerate (Suc n) xs)"
    by (simp add: assms)
  also have "\<dots> = k n # map k [Suc n..<Suc n + length xs]"
    using Cons.IH [of "Suc n"] by (simp only:)
  also have "\<dots> = map k [n..<n + length (x # xs)]"
    unfolding u by simp
  finally show ?case .
qed

lemma settleWinners_maps:
  "map w_userId (settleWinners auction wbs price) = map userId wbs"
  "map w_bidId (settleWinners auction wbs price) = map b_id wbs"
  "map w_amount (settleWinners auction wbs price) = map amount wbs"
  unfolding settleWinners_def map_map
  by (rule map_enumerate_snd, simp)+

lemma settleWinners_serials:
  "map w_giftSerial (settleWinners auction wbs price)
     = map (\<lambda>i. awardedCount auction + int i + 1) [0..<length wbs]"
proof -
  have "map w_giftSerial (settleWinners auction wbs price)
     = map (\<lambda>i. awardedCount auction + int i + 1) [0..<0 + length wbs]"
    unfolding settleWinners_def map_map
    by (rule map_enumerate_fst) simp
  then show ?thesis by simp
qed

lemma roundWinnerOf_simps [simp]:
  "w_userId (roundWinnerOf w) = w_userId w"
  "w_amount (roundWinnerOf w) = w_amount w"
  "w_giftSerial (roundWinnerOf w) = w_giftSerial w"
  "w_paid (roundWinnerOf w) = w_paid w"
  "w_refunded (roundWinnerOf w) = w_refunded w"
  by (simp_all add: roundWinnerOf_def)

subsection \<open>The loops of the settlement and the users\<close>



lemma forEach_rounds:
  assumes "forEach body xs s = (r, s')"
    and "\<And>x t r' t'. body x t = (r', t') \<Longrightarrow> rounds t' = rounds t"
  shows "rounds s' = rounds s"
  using assms(1)
proof (induction xs arbitrary: s)
  case Nil
  then show ?case by simp
next
  case (Cons x xs)
  obtain r1 s1 where b: "body x s = (r1, s1)" by (cases "body x s")
  then have a1: "rounds s1 = rounds s" by (rule assms(2))
  show ?case
  proof (cases r1)
    case (Inl e)
    with Cons.prems b a1 show ?thesis by simp
  next
    case (Inr u)
    with Cons.prems b have "forEach body xs s1 = (r, s')" by simp
    from Cons.IH [OF this] a1 show ?thesis by simp
  qed
qed

lemma settleWinner_rounds:
  "settleWinner aid auction t price w s = (r, s') \<Longrightarrow> rounds s' = rounds s"
  by (auto simp: settleWinner_def updateOne_def Let_def split: if_splits option.splits)

lemma refundLostBid_rounds: "refundLostBid aid t b s = (r, s') \<Longrightarrow> rounds s' = rounds s"
  by (auto simp: refundLostBid_def updateOne_def split: if_splits)

text \<open>
  How \<open>finishRound\<close> ends: the store after it differs in the auctions from either the
  store before it (next round) or the store after the refunds (end of the auction).
\<close>

lemma finishRound_success:
  assumes "finishRound aid token auction t remainingQty price n s = (Inr logs, s')"
  shows "(\<exists>au. s' = s\<lparr>auctions := au\<rparr>)
       \<or> (\<exists>u s1 au. forEach (refundLostBid aid t)
              (filter (\<lambda>b. auctionId b = aid \<and> status b = Active) (bids s)) s = (Inr u, s1)
            \<and> s' = s1\<lparr>auctions := au\<rparr>)"
  using assms
  by (auto simp: finishRound_def updateOne_def Let_def
           split: if_splits sum.splits prod.splits)

subsection \<open>A settled round\<close>

lemma settleTxn_settled:
  assumes "settleTxn aid token env s = (Inr logs, s')"
    and "find (\<lambda>a. a_id a = aid \<and> state a = Running \<and> roundState a = Some Closing
                     \<and> closingToken a = Some token) (auctions s) = Some auction"
  shows "\<exists>u s2.
     forEach (settleWinner aid auction (now env)
                (roundClearingPrice (roundWinnerBids aid auction s)))
        (settleWinners auction (roundWinnerBids aid auction s)
           (roundClearingPrice (roundWinnerBids aid auction s)))
        (s\<lparr>rounds := rounds s @
             [\<lparr>r_auctionId = aid, roundNumber = currentRound auction, r_endedAt = now env,
               r_clearingPrice = roundClearingPrice (roundWinnerBids aid auction s),
               winners = map roundWinnerOf
                 (settleWinners auction (roundWinnerBids aid auction s)
                    (roundClearingPrice (roundWinnerBids aid auction s)))\<rparr>]\<rparr>) = (Inr u, s2)
     \<and> finishRound aid token auction (now env)
          (max 0 (totalQuantity auction - awardedCount auction))
          (roundClearingPrice (roundWinnerBids aid auction s))
          (int (length (settleWinners auction (roundWinnerBids aid auction s)
                  (roundClearingPrice (roundWinnerBids aid auction s))))) s2 = (Inr logs, s')"
  using assms
  by (auto simp: settleTxn_def insertRound_def Let_def split: if_splits sum.splits prod.splits)

lemma finishRound_rounds:
  assumes "finishRound aid token auction t remainingQty price n s = (Inr logs, s')"
  shows "rounds s' = rounds s"
  using finishRound_success [OF assms]
  by (auto dest: forEach_rounds [OF _ refundLostBid_rounds])







section \<open>Settling a round twice\<close>

lemma updateFirst_clears:
  assumes "distinct (map k xs)" "find P xs = Some x"
    and "\<And>y. P y \<Longrightarrow> k y = c" "\<And>y. k (f y) = k y"
    and "\<And>y. Q y \<Longrightarrow> k y = c" "\<And>y. \<not> Q (f y)"
  shows "find Q (updateFirst P f xs) = None"
  using assms(1,2)
proof (induction xs)
  case Nil
  then show ?case by simp
next
  case (Cons a xs)
  show ?case
  proof (cases "P a")
    case True
    have "\<not> Q y" if "y \<in> set xs" for y
    proof
      assume "Q y"
      then have "k y = k a" using assms(3) [OF True] assms(5) by simp
      with that Cons.prems(1) show False by (auto simp: image_iff)
    qed
    then have "find Q xs = None" by (simp add: find_None_iff)
    then show ?thesis using True assms(6) by simp
  next
    case False
    with Cons.prems(2) have fx: "find P xs = Some x" by simp
    then have "x \<in> set xs" "k x = c"
      using find_SomeD [OF fx] assms(3) by simp_all
    then have "k a \<noteq> c" using Cons.prems(1) by (auto simp: image_iff)
    then have "\<not> Q a" using assms(5) by blast
    moreover have "find Q (updateFirst P f xs) = None"
      using Cons.IH Cons.prems(1) fx by simp
    ultimately show ?thesis using False by simp
  qed
qed

lemma finishRound_leaves_closing:
  assumes "finishRound aid token auction t remainingQty price n s = (Inr logs, s')"
    and "distinct (map a_id (auctions s))"
  shows "find (\<lambda>a. a_id a = aid \<and> state a = Running \<and> roundState a = Some Closing
                     \<and> closingToken a = Some token) (auctions s') = None"
proof -
  let ?P = "\<lambda>a. a_id a = aid \<and> state a = Running \<and> closingToken a = Some token"
  let ?Q = "\<lambda>a. a_id a = aid \<and> state a = Running \<and> roundState a = Some Closing
                     \<and> closingToken a = Some token"
  consider (rolled) f x where "s' = s\<lparr>auctions := updateFirst ?P f (auctions s)\<rparr>"
        "find ?P (auctions s) = Some x"
        "\<And>a. a_id (f a) = a_id a" "\<And>a. closingToken (f a) = None"
    | (ended) u s1 f x where
        "forEach (refundLostBid aid t)
           (filter (\<lambda>b. auctionId b = aid \<and> status b = Active) (bids s)) s = (Inr u, s1)"
        "s' = s1\<lparr>auctions := updateFirst ?P f (auctions s1)\<rparr>"
        "find ?P (auctions s1) = Some x"
        "\<And>a. a_id (f a) = a_id a" "\<And>a. closingToken (f a) = None"
    using assms(1)
    by (auto simp: finishRound_def updateOne_def Let_def
             split: if_splits sum.splits prod.splits option.splits)
  then show ?thesis
  proof cases
    case rolled
    have "find ?Q (updateFirst ?P f (auctions s)) = None"
      using assms(2) rolled(2)
      by (rule updateFirst_clears [where k = a_id and c = aid]) (simp_all add: rolled(3,4))
    then show ?thesis unfolding rolled(1) by simp
  next
    case ended
    have au: "auctions s1 = auctions s"
      using ended(1) by (rule forEach_auctions) (rule refundLostBid_auctions)
    have "find ?Q (updateFirst ?P f (auctions s1)) = None"
      using assms(2) [folded au] ended(3)
      by (rule updateFirst_clears [where k = a_id and c = aid]) (simp_all add: ended(4,5))
    then show ?thesis unfolding ended(2) by simp
  qed
qed

lemma settleTxn_leaves_closing:
  assumes "settleTxn aid token env s = (Inr logs, s')"
    and "auctionIdsDistinct s"
  shows "find (\<lambda>a. a_id a = aid \<and> state a = Running \<and> roundState a = Some Closing
                     \<and> closingToken a = Some token) (auctions s') = None"
proof (cases "find (\<lambda>a. a_id a = aid \<and> state a = Running \<and> roundState a = Some Closing
                     \<and> closingToken a = Some token) (auctions s)")
  case None
  then show ?thesis using assms by (simp add: settleTxn_def)
next
  case (Some auction)
  let ?wbs = "roundWinnerBids aid auction s"
  let ?price = "roundClearingPrice ?wbs"
  let ?ws = "settleWinners auction ?wbs ?price"
  obtain rd u s2 where loop: "forEach (settleWinner aid auction (now env) ?price) ?ws
                            (s\<lparr>rounds := rounds s @ [rd]\<rparr>) = (Inr u, s2)"
    and fin: "finishRound aid token auction (now env)
                (max 0 (totalQuantity auction - awardedCount auction)) ?price (int (length ?ws)) s2
              = (Inr logs, s')"
    using assms(1) Some
    by (auto simp: settleTxn_def insertRound_def Let_def split: if_splits sum.splits prod.splits)
  have au: "auctions s2 = auctions s"
    using forEach_auctions [OF loop settleWinner_auctions] by simp
  have "distinct (map a_id (auctions s2))"
    using assms(2) unfolding au by (simp add: auctionIdsDistinct_def)
  with fin show ?thesis by (rule finishRound_leaves_closing)
qed

lemma settleClosingAuction_not_closing:
  assumes "find (\<lambda>a. a_id a = aid \<and> state a = Running \<and> roundState a = Some Closing
                     \<and> closingToken a = Some token) (auctions s) = None"
  shows "settleClosingAuction env aid token s = ([], s)"
proof -
  have "settleTxn aid token (env 1) s = (Inr [], s)"
    using assms by (simp add: settleTxn_def)
  then have "withTxn False (\<lambda>attempt. settleTxn aid token (env attempt)) s = (Inr [], s)"
    by (rule withTxn_first)
  then show ?thesis by (simp add: settleClosingAuction_def)
qed

lemma settleClosingAuction_cases:
  assumes "settleClosingAuction env aid token s = (logs, s')"
  shows "s' = s \<or> (\<exists>n x. settleTxn aid token (env n) s = (Inr x, s'))"
proof -
  obtain res where w: "withTxn False (\<lambda>attempt. settleTxn aid token (env attempt)) s = (res, s')"
    using assms
    by (cases "withTxn False (\<lambda>attempt. settleTxn aid token (env attempt)) s")
       (auto simp: settleClosingAuction_def split: sum.splits if_splits)
  from w show ?thesis
  proof (cases rule: withTxn_cases)
    case (failed err)
    then show ?thesis by simp
  next
    case (committed n x)
    then show ?thesis by blast
  qed
qed

text \<open>
  Claim C4. Let the auction ids of the store be unique. When \<open>settleClosingAuction\<close> has
  changed the store (it has written a round document and charged the winners), running it
  again for the same auction and token, at any later time, changes nothing and logs
  nothing: no user is charged again, and the round document stays as it is. Whenever no
  auction is closing under the token, \<open>settleClosingAuction\<close> changes nothing. And when
  the auction is closing under the token and a round document for its current round
  exists already, \<open>settleClosingAuction\<close> changes nothing either: the duplicate-key error
  of the round insert is logged as \<open>round already settled\<close> and not as a failure.
\<close>

theorem settle_again_is_noop:
  "(auctionIdsDistinct s \<and> settleClosingAuction env aid token s = (logs, s') \<and> s' \<noteq> s
      \<longrightarrow> settleClosingAuction env' aid token s' = ([], s'))
   \<and> (find (\<lambda>a. a_id a = aid \<and> state a = Running \<and> roundState a = Some Closing
                     \<and> closingToken a = Some token) (auctions s) = None
      \<longrightarrow> settleClosingAuction env aid token s = ([], s))
   \<and> (find (\<lambda>a. a_id a = aid \<and> state a = Running \<and> roundState a = Some Closing
                     \<and> closingToken a = Some token) (auctions s) = Some auction
        \<and> r \<in> set (rounds s) \<and> r_auctionId r = aid \<and> roundNumber r = currentRound auction
      \<longrightarrow> settleClosingAuction env aid token s = ([LogInfo ''round already settled''], s))"
proof (intro conjI impI)
  assume a: "auctionIdsDistinct s \<and> settleClosingAuction env aid token s = (logs, s') \<and> s' \<noteq> s"
  then obtain n x where t: "settleTxn aid token (env n) s = (Inr x, s')"
    using settleClosingAuction_cases [of env aid token s logs s'] by blast
  from a have d: "auctionIdsDistinct s" by simp
  from t d have "find (\<lambda>a. a_id a = aid \<and> state a = Running \<and> roundState a = Some Closing
                     \<and> closingToken a = Some token) (auctions s') = None"
    by (rule settleTxn_leaves_closing)
  then show "settleClosingAuction env' aid token s' = ([], s')"
    by (rule settleClosingAuction_not_closing)
next
  assume "find (\<lambda>a. a_id a = aid \<and> state a = Running \<and> roundState a = Some Closing
                     \<and> closingToken a = Some token) (auctions s) = None"
  then show "settleClosingAuction env aid token s = ([], s)"
    by (rule settleClosingAuction_not_closing)
next
  assume a: "find (\<lambda>a. a_id a = aid \<and> state a = Running \<and> roundState a = Some Closing
                     \<and> closingToken a = Some token) (auctions s) = Some auction
        \<and> r \<in> set (rounds s) \<and> r_auctionId r = aid \<and> roundNumber r = currentRound auction"
  then have "settleTxn aid token (env 1) s = (Inl (duplicateKey [''auctionId'', ''roundNumber'']), s)"
    by (intro settleTxn_duplicate_round [where r = r]) simp_all
  then have "withTxn False (\<lambda>attempt. settleTxn aid token (env attempt)) s
             = (Inl (duplicateKey [''auctionId'', ''roundNumber'']), s)"
    by (rule withTxn_first_fail) (simp_all add: duplicateKey_def)
  then show "settleClosingAuction env aid token s = ([LogInfo ''round already settled''], s)"
    by (simp add: settleClosingAuction_def duplicateKey_def)
qed

text \<open>
  The round of \<open>twoGiftsStore\<close> is settled at 10651 and the winners are charged; the
  settlement is run again at 10700 and leaves every balance as it is. Under another token
  nothing is settled. In \<open>resumedStore\<close> the user still has 100 reserved on the winning
  bid; settling again charges nothing.
\<close>

theorem settle_again_is_noop_witness:
  "auctionIdsDistinct twoGiftsStore
   \<and> snd (settleClosingAuction (envAt 10651 []) ''a1'' ''tok1'' twoGiftsStore) \<noteq> twoGiftsStore
   \<and> settleClosingAuction (envAt 10700 []) ''a1'' ''tok1''
        (snd (settleClosingAuction (envAt 10651 []) ''a1'' ''tok1'' twoGiftsStore))
       = ([], snd (settleClosingAuction (envAt 10651 []) ''a1'' ''tok1'' twoGiftsStore))
   \<and> map balance (users (snd (settleClosingAuction (envAt 10651 []) ''a1'' ''tok1'' twoGiftsStore)))
       = [\<lparr>available = 980, reserved = 0, spent = 20\<rparr>,
          \<lparr>available = 980, reserved = 0, spent = 20\<rparr>,
          \<lparr>available = 1000, reserved = 0, spent = 0\<rparr>]
   \<and> settleClosingAuction (envAt 10651 []) ''a1'' ''tok2'' twoGiftsStore = ([], twoGiftsStore)
   \<and> settleClosingAuction (envAt 10700 []) ''a1'' ''tok1'' resumedStore
       = ([LogInfo ''round already settled''], resumedStore)
   \<and> users resumedStore
       = [\<lparr>u_id = ''u1'', u_createdAt = 0,
            balance = \<lparr>available = 900, reserved = 100, spent = 0\<rparr>, totalTopups = 1000\<rparr>]"
proof -
  let ?s' = "snd (settleClosingAuction (envAt 10651 []) ''a1'' ''tok1'' twoGiftsStore)"
  have d: "auctionIdsDistinct twoGiftsStore" by code_simp
  have "rounds twoGiftsStore = []" by code_simp
  moreover have "rounds ?s' \<noteq> []" by code_simp
  ultimately have ne: "?s' \<noteq> twoGiftsStore" by auto
  have e: "settleClosingAuction (envAt 10651 []) ''a1'' ''tok1'' twoGiftsStore
           = (fst (settleClosingAuction (envAt 10651 []) ''a1'' ''tok1'' twoGiftsStore), ?s')"
    by simp
  have 1: "settleClosingAuction (envAt 10700 []) ''a1'' ''tok1'' ?s' = ([], ?s')"
    using settle_again_is_noop
            [where s = twoGiftsStore and env = "envAt 10651 []" and aid = "''a1''"
               and token = "''tok1''" and s' = ?s' and env' = "envAt 10700 []",
             THEN conjunct1] d e ne
    by blast
  have b: "map balance (users ?s')
       = [\<lparr>available = 980, reserved = 0, spent = 20\<rparr>,
          \<lparr>available = 980, reserved = 0, spent = 20\<rparr>,
          \<lparr>available = 1000, reserved = 0, spent = 0\<rparr>]" by code_simp
  have n: "find (\<lambda>a. a_id a = ''a1'' \<and> state a = Running \<and> roundState a = Some Closing
                     \<and> closingToken a = Some ''tok2'') (auctions twoGiftsStore) = None"
    by code_simp
  have 2: "settleClosingAuction (envAt 10651 []) ''a1'' ''tok2'' twoGiftsStore = ([], twoGiftsStore)"
    using settle_again_is_noop
            [where s = twoGiftsStore and env = "envAt 10651 []" and aid = "''a1''"
               and token = "''tok2''", THEN conjunct2, THEN conjunct1] n
    by blast
  have f: "find (\<lambda>a. a_id a = ''a1'' \<and> state a = Running \<and> roundState a = Some Closing
                     \<and> closingToken a = Some ''tok1'') (auctions resumedStore)
           = Some (hd (auctions resumedStore))"
    by (simp add: resumedStore_def)
  have r: "hd (rounds resumedStore) \<in> set (rounds resumedStore)"
    "r_auctionId (hd (rounds resumedStore)) = ''a1''"
    "roundNumber (hd (rounds resumedStore)) = currentRound (hd (auctions resumedStore))"
    by (simp_all add: resumedStore_def)
  have 3: "settleClosingAuction (envAt 10700 []) ''a1'' ''tok1'' resumedStore
     = ([LogInfo ''round already settled''], resumedStore)"
    using settle_again_is_noop
            [where s = resumedStore and env = "envAt 10700 []" and aid = "''a1''"
               and token = "''tok1''" and auction = "hd (auctions resumedStore)"
               and r = "hd (rounds resumedStore)",
             THEN conjunct2, THEN conjunct2] f r
    by blast
  have u: "users resumedStore
       = [\<lparr>u_id = ''u1'', u_createdAt = 0,
            balance = \<lparr>available = 900, reserved = 100, spent = 0\<rparr>, totalTopups = 1000\<rparr>]"
    by (simp add: resumedStore_def)
  from d ne 1 b 2 3 u show ?thesis by simp
qed

section \<open>Gift serials\<close>

lemma wonSerials_view:
  "map bidView bs' = map bidView bs \<Longrightarrow> wonSerials bs' a = wonSerials bs a"
proof (induction bs arbitrary: bs')
  case Nil
  then show ?case by simp
next
  case (Cons b bs)
  then obtain c cs where bs': "bs' = c # cs" by (cases bs') auto
  with Cons.prems have v: "bidView c = bidView b" and r: "map bidView cs = map bidView bs"
    by simp_all
  have "wonSerials cs a = wonSerials bs a" using r by (rule Cons.IH)
  then show ?case using v unfolding bs'
    by (auto simp: wonSerials_def bidView_def split: if_splits)
qed

lemma sameSerials_refl [simp]: "sameSerials s s"
  by (simp add: sameSerials_def)

lemma sameSerials_trans: "sameSerials s t \<Longrightarrow> sameSerials t u \<Longrightarrow> sameSerials s u"
  by (simp add: sameSerials_def)

lemma sameSerials_other [simp]:
  "sameSerials s (t\<lparr>users := us\<rparr>) = sameSerials s t"
  "sameSerials s (t\<lparr>rounds := rs\<rparr>) = sameSerials s t"
  "sameSerials s (t\<lparr>ledger := ls\<rparr>) = sameSerials s t"
  "sameSerials s (insertLedger docs t) = sameSerials s t"
  by (simp_all add: sameSerials_def)

lemma map_view_ids:
  "map a_id xs = map fst (map auctionView xs)"
  "map b_id ys = map fst (map bidView ys)"
  "map auctionId ys = map (fst \<circ> snd) (map bidView ys)"
  by (simp_all add: auctionView_def bidView_def comp_def)

lemma serialInv_same:
  assumes "serialInv s" "sameSerials s s'"
  shows "serialInv s'"
proof -
  have av: "map auctionView (auctions s') = map auctionView (auctions s)"
    and bv: "map bidView (bids s') = map bidView (bids s)"
    using assms(2) by (simp_all add: sameSerials_def)
  have ai: "map a_id (auctions s') = map a_id (auctions s)"
    unfolding map_view_ids(1) av ..
  have bi: "map b_id (bids s') = map b_id (bids s)"
    unfolding map_view_ids(2) bv ..
  have ba: "map auctionId (bids s') = map auctionId (bids s)"
    unfolding map_view_ids(3) bv ..
  have ws: "\<And>a. wonSerials (bids s') a = wonSerials (bids s) a"
    using bv by (rule wonSerials_view)
  have 1: "distinct (map a_id (auctions s'))" "distinct (map b_id (bids s'))"
    using assms(1) unfolding ai bi by (simp_all add: serialInv_def)
  have 2: "\<forall>b \<in> set (bids s'). auctionId b \<in> a_id ` set (auctions s')"
  proof
    fix b assume "b \<in> set (bids s')"
    then have "auctionId b \<in> set (map auctionId (bids s'))" by simp
    then have "auctionId b \<in> set (map auctionId (bids s))" unfolding ba .
    then have "auctionId b \<in> set (map a_id (auctions s))"
      using assms(1) by (auto simp: serialInv_def)
    then have "auctionId b \<in> set (map a_id (auctions s'))" unfolding ai .
    then show "auctionId b \<in> a_id ` set (auctions s')" by simp
  qed
  have 3: "\<forall>a \<in> set (auctions s').
           0 \<le> awardedCount a
           \<and> mset (wonSerials (bids s') (a_id a)) = mset [1..awardedCount a]"
  proof
    fix a assume "a \<in> set (auctions s')"
    then have "auctionView a \<in> set (map auctionView (auctions s'))" by simp
    then have "auctionView a \<in> set (map auctionView (auctions s))" unfolding av .
    then obtain a0 where a0: "a0 \<in> set (auctions s)" "auctionView a0 = auctionView a"
      by auto
    then have "a_id a0 = a_id a" "awardedCount a0 = awardedCount a"
      by (simp_all add: auctionView_def)
    then show "0 \<le> awardedCount a
           \<and> mset (wonSerials (bids s') (a_id a)) = mset [1..awardedCount a]"
      using assms(1) a0(1) unfolding ws by (auto simp: serialInv_def)
  qed
  from 1 2 3 show ?thesis by (simp add: serialInv_def)
qed

lemma sameSerials_auctions:
  assumes "sameSerials s t" "\<And>a. auctionView (f a) = auctionView a"
  shows "sameSerials s (t\<lparr>auctions := updateFirst P f (auctions t)\<rparr>)"
  using assms by (simp add: sameSerials_def updateFirst_map)

lemma sameSerials_bids:
  assumes "sameSerials s t" "\<And>b. P b \<Longrightarrow> bidView (f b) = bidView b"
  shows "sameSerials s (t\<lparr>bids := updateFirst P f (bids t)\<rparr>)"
  using assms by (simp add: sameSerials_def updateFirst_map)

lemma createUser_serials: "sameSerials s (snd (createUser newId t s))"
  by (simp add: createUser_def insertUser_def Let_def sameSerials_def)

lemma topupUserTxn_serials: "topupUserTxn uid amt env s = (r, s') \<Longrightarrow> sameSerials s s'"
  by (auto simp: topupUserTxn_def findOneAndUpdate_def split: option.splits)

lemma startAuctionTxn_serials: "startAuctionTxn aid env s = (r, s') \<Longrightarrow> sameSerials s s'"
  by (auto simp: startAuctionTxn_def findOneAndUpdate_def Let_def auctionView_def
           intro!: sameSerials_auctions split: option.splits if_splits)

lemma lockDueRound_serials: "sameSerials s (snd (lockDueRound aid token t s))"
  by (auto simp: lockDueRound_def findOneAndUpdate_def Let_def auctionView_def
           intro!: sameSerials_auctions)

lemma forEach_serials:
  assumes "forEach body xs s = (r, s')"
    and "\<And>x t r' t'. body x t = (r', t') \<Longrightarrow> sameSerials t t'"
  shows "sameSerials s s'"
  using assms(1)
proof (induction xs arbitrary: s)
  case Nil
  then show ?case by simp
next
  case (Cons x xs)
  obtain r1 s1 where b: "body x s = (r1, s1)" by (cases "body x s")
  then have a1: "sameSerials s s1" by (rule assms(2))
  show ?case
  proof (cases r1)
    case (Inl e)
    with b Cons.prems have "s' = s1" by simp
    with a1 show ?thesis by simp
  next
    case (Inr u)
    with b Cons.prems have "forEach body xs s1 = (r, s')" by simp
    then have "sameSerials s1 s'" by (rule Cons.IH)
    with a1 show ?thesis by (rule sameSerials_trans)
  qed
qed

lemma cancelBid_serials: "cancelBid aid t b s = (r, s') \<Longrightarrow> sameSerials s s'"
  by (auto simp: cancelBid_def updateOne_def bidView_def
           intro!: sameSerials_bids split: if_splits)

lemma refundLostBid_serials: "refundLostBid aid t b s = (r, s') \<Longrightarrow> sameSerials s s'"
  by (auto simp: refundLostBid_def updateOne_def bidView_def
           intro!: sameSerials_bids split: if_splits)

lemma cancelAuctionTxn_serials: "cancelAuctionTxn aid env s = (r, s') \<Longrightarrow> sameSerials s s'"
proof -
  assume a: "cancelAuctionTxn aid env s = (r, s')"
  let ?f = "\<lambda>a. a\<lparr>state := Cancelled, endedAt := Some (now env),
                    endReason := Some CancelledReason, a_updatedAt := now env,
                    roundState := None, roundEndsAt := None, closingToken := None,
                    closingStartedAt := None, version := version a + 1\<rparr>"
  let ?s1 = "s\<lparr>auctions := updateFirst (\<lambda>a. a_id a = aid \<and> state a \<in> {Draft, Running}) ?f (auctions s)\<rparr>"
  have s1: "sameSerials s ?s1"
    by (rule sameSerials_auctions) (simp_all add: auctionView_def)
  show ?thesis
  proof (cases "find (\<lambda>a. a_id a = aid \<and> state a \<in> {Draft, Running}) (auctions s)")
    case None
    with a have "s' = ?s1" by (auto simp: cancelAuctionTxn_def findOneAndUpdate_def)
    with s1 show ?thesis by simp
  next
    case (Some x)
    obtain r2 s2 where l: "forEach (cancelBid aid (now env))
             (filter (\<lambda>b. auctionId b = aid \<and> status b = Active) (bids ?s1)) ?s1 = (r2, s2)"
      by (cases "forEach (cancelBid aid (now env))
             (filter (\<lambda>b. auctionId b = aid \<and> status b = Active) (bids ?s1)) ?s1")
    with a Some have "s' = s2"
      by (auto simp: cancelAuctionTxn_def findOneAndUpdate_def Let_def split: sum.splits)
    moreover have "sameSerials ?s1 s2"
      using l by (rule forEach_serials) (rule cancelBid_serials)
    ultimately show ?thesis using s1 by (auto intro: sameSerials_trans)
  qed
qed

lemma withdrawBidTxn_serials:
  assumes "withdrawBidTxn aid uid env s = (Inr wb, s')"
  shows "sameSerials s s'"
  using withdrawBidTxn_success [OF assms]
  by (auto simp: sameSerials_def updateFirst_map auctionView_def bidView_def)

lemma wonSerials_append:
  "status nb \<noteq> Won \<Longrightarrow> wonSerials (bs @ [nb]) a = wonSerials bs a"
  by (simp add: wonSerials_def)

lemma serialInv_new_bid:
  assumes "serialInv s" "status nb \<noteq> Won" "auctionId nb \<in> a_id ` set (auctions s)"
    "\<forall>b \<in> set (bids s). b_id b \<noteq> b_id nb"
  shows "serialInv (s\<lparr>bids := bids s @ [nb]\<rparr>)"
  using assms by (auto simp: serialInv_def wonSerials_append)

lemma writeBid_serials:
  assumes "writeBid aid uid newAmount env existing s = (Inr b', s2)"
  shows "sameSerials s s2
       \<or> (\<exists>nb. s2 = s\<lparr>bids := bids s @ [nb]\<rparr> \<and> status nb = Active \<and> auctionId nb = aid
              \<and> (\<forall>b \<in> set (bids s). b_id b \<noteq> b_id nb))"
  using assms
  by (auto simp: writeBid_def findOneAndUpdate_def insertBid_def Let_def bidView_def
           intro!: sameSerials_bids split: option.splits if_splits)

lemma placeBidTxn_serials:
  assumes "serialInv s" "placeBidTxn aid uid newAmount env s = (Inr x, s')"
  shows "serialInv s'"
proof -
  obtain a' b' where x: "x = (a', b')" by (cases x)
  from placeBidTxn_success [OF assms(2) [unfolded x]] obtain auction cur where
    fa: "find (\<lambda>a. a_id a = aid) (auctions s) = Some auction"
    and w: "placeBidWrites aid uid newAmount env auction cur
          (find (\<lambda>b. auctionId b = aid \<and> userId b = uid) (bids s))
          (newAmount - activeAmount aid uid s) s = (Inr (a', b'), s')"
    by blast
  let ?delta = "newAmount - activeAmount aid uid s"
  let ?s1 = "s\<lparr>users := updateFirst (\<lambda>u. u_id u = uid \<and> available (balance u) \<ge> ?delta)
                        (reserveFunds ?delta) (users s)\<rparr>"
  from placeBidWrites_success [OF w] obtain s2 where
    wb: "writeBid aid uid newAmount env (find (\<lambda>b. auctionId b = aid \<and> userId b = uid) (bids s))
           ?s1 = (Inr b', s2)"
    and s': "s' = (insertLedger
              [\<lparr>l_createdAt = now env, l_userId = uid, l_type = Reserve,
                l_amount = ?delta, l_auctionId = Some aid,
                meta = [(''bidId'', MetaString (b_id b'))]\<rparr>] s2)
            \<lparr>auctions := updateFirst
                 (\<lambda>a. a_id a = aid \<and> state a = Running \<and> roundState a = Some Open)
                 (\<lambda>a. a\<lparr>a_updatedAt := now env,
                        roundEndsAt := maxMerge (roundEndsAt a) (antiSnipeEndsAt auction cur (now env)),
                        version := version a + 1\<rparr>)
                 (auctions s)\<rparr>"
    by blast
  have i1: "serialInv ?s1"
    using assms(1) by (rule serialInv_same) simp
  have "auction \<in> set (auctions s)" "a_id auction = aid"
    using find_SomeD [OF fa] by simp_all
  then have in0: "aid \<in> a_id ` set (auctions s)" by force
  then have in1: "aid \<in> a_id ` set (auctions ?s1)" by simp
  have i2: "serialInv s2"
    using writeBid_serials [OF wb]
  proof
    assume "sameSerials ?s1 s2"
    with i1 show ?thesis by (rule serialInv_same)
  next
    assume "\<exists>nb. s2 = ?s1\<lparr>bids := bids ?s1 @ [nb]\<rparr> \<and> status nb = Active \<and> auctionId nb = aid
              \<and> (\<forall>b \<in> set (bids ?s1). b_id b \<noteq> b_id nb)"
    then obtain nb where nb: "s2 = ?s1\<lparr>bids := bids ?s1 @ [nb]\<rparr>" "status nb = Active"
      "auctionId nb = aid" "\<forall>b \<in> set (bids ?s1). b_id b \<noteq> b_id nb"
      by blast
    show ?thesis unfolding nb(1)
      using i1 _ _ nb(4) by (rule serialInv_new_bid) (simp_all add: nb(2,3) in0)
  qed
  have au: "auctions s2 = auctions s"
    using writeBid_auctions [OF wb] by simp
  have "sameSerials s2 s'"
    unfolding s' au [symmetric]
    by (simp add: sameSerials_def updateFirst_map auctionView_def)
  with i2 show ?thesis by (rule serialInv_same)
qed

lemma createAuction_serials:
  assumes "serialInv s"
  shows "serialInv (snd (createAuction newId t input s))"
proof (cases "snd (createAuction newId t input s) = s")
  case True
  then show ?thesis using assms by simp
next
  case False
  then obtain doc where s': "snd (createAuction newId t input s) = s\<lparr>auctions := auctions s @ [doc]\<rparr>"
    and doc: "a_id doc = newId" "awardedCount doc = 0"
    and fresh: "\<forall>a \<in> set (auctions s). a_id a \<noteq> newId"
    by (auto simp: createAuction_def insertAuction_def Let_def split: if_splits)
  have "\<forall>b \<in> set (bids s). auctionId b \<noteq> newId"
  proof
    fix b assume "b \<in> set (bids s)"
    then have "auctionId b \<in> a_id ` set (auctions s)"
      using assms by (simp add: serialInv_def)
    then obtain a where "a \<in> set (auctions s)" "auctionId b = a_id a" by auto
    with fresh show "auctionId b \<noteq> newId" by simp
  qed
  then have "filter (\<lambda>b. auctionId b = newId \<and> status b = Won) (bids s) = []"
    by (auto simp: filter_empty_conv)
  then have "wonSerials (bids s) newId = []" by (simp add: wonSerials_def)
  then show ?thesis unfolding s'
    using assms fresh doc by (auto simp: serialInv_def)
qed

lemma upto_serials:
  "0 \<le> ac \<Longrightarrow> mset [1..ac] + mset (map (\<lambda>i. ac + int i + 1) [0..<n]) = mset [1..ac + int n]"
proof (induction n)
  case 0
  then show ?case by simp
next
  case (Suc n)
  have "[1..ac + int (Suc n)] = [1..ac + int n] @ [ac + int n + 1]"
    using Suc.prems by (subst upto_rec2) (simp_all add: algebra_simps)
  then show ?case using Suc by simp
qed

lemma updateFirst_members:
  assumes "find P xs = Some x" "distinct (map k xs)" "y \<in> set (updateFirst P f xs)"
  shows "y = f x \<or> (y \<in> set xs \<and> k y \<noteq> k x)"
  using assms
proof (induction xs)
  case Nil
  then show ?case by simp
next
  case (Cons a xs)
  show ?case
  proof (cases "P a")
    case True
    with Cons.prems(1) have ax: "a = x" by simp
    from Cons.prems(3) True have "y = f a \<or> y \<in> set xs" by simp
    then show ?thesis
    proof
      assume "y = f a" then show ?thesis using ax by simp
    next
      assume y: "y \<in> set xs"
      then have "k y \<noteq> k a" using Cons.prems(2) by (auto simp: image_iff)
      with y ax show ?thesis by simp
    qed
  next
    case False
    with Cons.prems(1) have fx: "find P xs = Some x" by simp
    then have xin: "x \<in> set xs" using find_SomeD by fastforce
    from Cons.prems(3) False have "y = a \<or> y \<in> set (updateFirst P f xs)" by simp
    then show ?thesis
    proof
      assume ya: "y = a"
      have "k a \<noteq> k x" using Cons.prems(2) xin by (auto simp: image_iff)
      with ya show ?thesis by simp
    next
      assume "y \<in> set (updateFirst P f xs)"
      with Cons.IH fx Cons.prems(2) show ?thesis by auto
    qed
  qed
qed

lemma serialInv_settled:
  assumes inv: "serialInv s"
    and fa: "find (\<lambda>a. a_id a = aid \<and> state a = Running \<and> closingToken a = Some token)
               (auctions s) = Some auction"
    and au: "auctions s' = updateFirst
               (\<lambda>a. a_id a = aid \<and> state a = Running \<and> closingToken a = Some token) f (auctions s)"
    and f: "\<And>a. a_id (f a) = a_id a" "\<And>a. awardedCount (f a) = awardedCount auction + int n"
    and ids: "map b_id (bids s') = map b_id (bids s)"
    and aids: "map auctionId (bids s') = map auctionId (bids s)"
    and won: "\<And>a. mset (wonSerials (bids s') a)
               = mset (wonSerials (bids s) a)
                 + (if a = aid then mset (map (\<lambda>i. awardedCount auction + int i + 1) [0..<n])
                    else {#})"
  shows "serialInv s'"
proof -
  let ?P = "\<lambda>a. a_id a = aid \<and> state a = Running \<and> closingToken a = Some token"
  have da: "distinct (map a_id (auctions s))" and db: "distinct (map b_id (bids s))"
    and ref: "\<forall>b \<in> set (bids s). auctionId b \<in> a_id ` set (auctions s)"
    and ser: "\<forall>a \<in> set (auctions s).
           0 \<le> awardedCount a
           \<and> mset (wonSerials (bids s) (a_id a)) = mset [1..awardedCount a]"
    using inv by (simp_all add: serialInv_def)
  have ai: "map a_id (auctions s') = map a_id (auctions s)"
    unfolding au by (simp add: updateFirst_map f(1))
  have am: "auction \<in> set (auctions s)" "a_id auction = aid"
    using find_SomeD [OF fa] by simp_all
  have 1: "distinct (map a_id (auctions s'))" "distinct (map b_id (bids s'))"
    using da db unfolding ai ids by simp_all
  have 2: "\<forall>b \<in> set (bids s'). auctionId b \<in> a_id ` set (auctions s')"
  proof
    fix b assume "b \<in> set (bids s')"
    then have "auctionId b \<in> set (map auctionId (bids s'))" by simp
    then have "auctionId b \<in> set (map auctionId (bids s))" unfolding aids .
    then have "auctionId b \<in> set (map a_id (auctions s))" using ref by auto
    then have "auctionId b \<in> set (map a_id (auctions s'))" unfolding ai .
    then show "auctionId b \<in> a_id ` set (auctions s')" by simp
  qed
  have 3: "\<forall>a \<in> set (auctions s').
           0 \<le> awardedCount a
           \<and> mset (wonSerials (bids s') (a_id a)) = mset [1..awardedCount a]"
  proof
    fix a assume "a \<in> set (auctions s')"
    then have "a \<in> set (updateFirst ?P f (auctions s))" unfolding au .
    with fa da have "a = f auction \<or> (a \<in> set (auctions s) \<and> a_id a \<noteq> a_id auction)"
      by (rule updateFirst_members)
    then show "0 \<le> awardedCount a
           \<and> mset (wonSerials (bids s') (a_id a)) = mset [1..awardedCount a]"
    proof
      assume a: "a = f auction"
      have ac: "0 \<le> awardedCount auction"
        "mset (wonSerials (bids s) aid) = mset [1..awardedCount auction]"
        using ser am by auto
      have "mset (wonSerials (bids s') aid)
            = mset [1..awardedCount auction]
              + mset (map (\<lambda>i. awardedCount auction + int i + 1) [0..<n])"
        using won [of aid] ac(2) by simp
      also have "\<dots> = mset [1..awardedCount auction + int n]"
        using ac(1) by (rule upto_serials)
      finally show ?thesis using ac(1) unfolding a by (simp add: f am(2))
    next
      assume a: "a \<in> set (auctions s) \<and> a_id a \<noteq> a_id auction"
      then have "mset (wonSerials (bids s') (a_id a)) = mset (wonSerials (bids s) (a_id a))"
        using won [of "a_id a"] am(2) by simp
      with a ser show ?thesis by simp
    qed
  qed
  from 1 2 3 show ?thesis by (simp add: serialInv_def)
qed

lemma map_bidKey_ids:
  "map b_id ys = map fst (map bidKey ys)"
  "map auctionId ys = map (fst \<circ> snd) (map bidKey ys)"
  by (simp_all add: bidKey_def comp_def)

lemma finishRound_awarded:
  assumes "finishRound aid token auction t remainingQty price n s = (Inr logs, s')"
  shows "\<exists>f s1. (s1 = s \<or> (\<exists>u. forEach (refundLostBid aid t)
                          (filter (\<lambda>b. auctionId b = aid \<and> status b = Active) (bids s)) s
                        = (Inr u, s1)))
              \<and> s' = s1\<lparr>auctions := updateFirst
                         (\<lambda>a. a_id a = aid \<and> state a = Running \<and> closingToken a = Some token)
                         f (auctions s1)\<rparr>
              \<and> (\<forall>a. a_id (f a) = a_id a \<and> awardedCount (f a) = awardedCount auction + n)"
proof -
  let ?P = "\<lambda>a. a_id a = aid \<and> state a = Running \<and> closingToken a = Some token"
  consider (rolled) f where "s' = s\<lparr>auctions := updateFirst ?P f (auctions s)\<rparr>"
        "\<And>a. a_id (f a) = a_id a" "\<And>a. awardedCount (f a) = awardedCount auction + n"
    | (ended) u s1 f where
        "forEach (refundLostBid aid t)
           (filter (\<lambda>b. auctionId b = aid \<and> status b = Active) (bids s)) s = (Inr u, s1)"
        "s' = s1\<lparr>auctions := updateFirst ?P f (auctions s1)\<rparr>"
        "\<And>a. a_id (f a) = a_id a" "\<And>a. awardedCount (f a) = awardedCount auction + n"
    using assms
    by (auto simp: finishRound_def updateOne_def Let_def
             split: if_splits sum.splits prod.splits option.splits)
  then show ?thesis
  proof cases
    case rolled
    then show ?thesis by (intro exI [of _ f] exI [of _ s]) simp
  next
    case ended
    then show ?thesis by (intro exI [of _ f] exI [of _ s1]) auto
  qed
qed

lemma settleTxn_serials:
  assumes inv: "serialInv s" and ok: "settleTxn aid token env s = (Inr logs, s')"
  shows "serialInv s'"
proof (cases "find (\<lambda>a. a_id a = aid \<and> state a = Running \<and> roundState a = Some Closing
                     \<and> closingToken a = Some token) (auctions s)")
  case None
  then show ?thesis using assms by (simp add: settleTxn_def)
next
  case (Some auction)
  let ?P = "\<lambda>a. a_id a = aid \<and> state a = Running \<and> closingToken a = Some token"
  let ?wbs = "roundWinnerBids aid auction s"
  let ?price = "roundClearingPrice ?wbs"
  let ?ws = "settleWinners auction ?wbs ?price"
  let ?rd = "\<lparr>r_auctionId = aid, roundNumber = currentRound auction, r_endedAt = now env,
               r_clearingPrice = ?price, winners = map roundWinnerOf ?ws\<rparr>"
  let ?s1 = "s\<lparr>rounds := rounds s @ [?rd]\<rparr>"
  have da: "distinct (map a_id (auctions s))" and db: "distinct (map b_id (bids s))"
    using inv by (simp_all add: serialInv_def)
  have strong: "find (\<lambda>a. a_id a = aid \<and> (state a = Running \<and> roundState a = Some Closing
                     \<and> closingToken a = Some token)) (auctions s) = Some auction"
    using Some by simp
  have weak: "find ?P (auctions s) = Some auction"
  proof -
    have "auction \<in> set (auctions s)" "a_id auction = aid" "state auction = Running"
      "closingToken auction = Some token"
      using find_SomeD [OF Some] by simp_all
    then obtain x where x: "find (\<lambda>a. a_id a = aid \<and> (state a = Running \<and> closingToken a = Some token))
                (auctions s) = Some x"
      by (cases "find (\<lambda>a. a_id a = aid \<and> (state a = Running \<and> closingToken a = Some token))
                (auctions s)") (auto simp: find_None_iff)
    from find_distinct_key [OF da x strong] x show ?thesis by simp
  qed
  from settleTxn_settled [OF ok Some] obtain u s2 where
    loop: "forEach (settleWinner aid auction (now env) ?price) ?ws ?s1 = (Inr u, s2)"
    and fin: "finishRound aid token auction (now env)
          (max 0 (totalQuantity auction - awardedCount auction)) ?price (int (length ?ws)) s2
          = (Inr logs, s')"
    by blast
  have sub: "\<And>b. b \<in> set ?wbs \<Longrightarrow> b \<in> set (bids s) \<and> auctionId b = aid"
    using roundWinnerBids_subset [of aid auction s] by auto
  have pre: "\<forall>sw \<in> set ?ws. \<exists>b \<in> set (bids ?s1). b_id b = w_bidId sw \<and> auctionId b = aid"
  proof
    fix sw assume "sw \<in> set ?ws"
    then obtain i where i: "i < length ?wbs" "sw = ?ws ! i"
      by (auto simp: in_set_conv_nth)
    then have "?wbs ! i \<in> set ?wbs" by simp
    then have "?wbs ! i \<in> set (bids s) \<and> auctionId (?wbs ! i) = aid" using sub by blast
    moreover have "b_id (?wbs ! i) = w_bidId sw"
      using i by (simp add: settleWinners_nth)
    ultimately show "\<exists>b \<in> set (bids ?s1). b_id b = w_bidId sw \<and> auctionId b = aid"
      by auto
  qed
  from settle_loop_bids [OF loop _ pre] db
  have keys2: "map bidKey (bids s2) = map bidKey (bids s)"
    and won2: "\<forall>a. mset (wonSerials (bids s2) a)
               = mset (wonSerials (bids s) a)
                 + (if a = aid then mset (map w_giftSerial ?ws) else {#})"
    by simp_all
  have ids2: "map b_id (bids s2) = map b_id (bids s)"
    unfolding map_bidKey_ids(1) keys2 ..
  have aids2: "map auctionId (bids s2) = map auctionId (bids s)"
    unfolding map_bidKey_ids(2) keys2 ..
  have au2: "auctions s2 = auctions s"
    using forEach_auctions [OF loop settleWinner_auctions] by simp
  have len: "int (length ?ws) = int (length ?wbs)" by simp
  from finishRound_awarded [OF fin] obtain f s3 where
    s3: "s3 = s2 \<or> (\<exists>u. forEach (refundLostBid aid (now env))
                          (filter (\<lambda>b. auctionId b = aid \<and> status b = Active) (bids s2)) s2
                        = (Inr u, s3))"
    and s': "s' = s3\<lparr>auctions := updateFirst ?P f (auctions s3)\<rparr>"
    and f: "\<forall>a. a_id (f a) = a_id a \<and> awardedCount (f a) = awardedCount auction + int (length ?ws)"
    by blast
  have same: "sameSerials s2 s3" and au3: "auctions s3 = auctions s2"
  proof -
    from s3 show "sameSerials s2 s3"
      by (auto intro: forEach_serials refundLostBid_serials)
    from s3 show "auctions s3 = auctions s2"
      by (auto intro: forEach_auctions refundLostBid_auctions)
  qed
  have bv: "map bidView (bids s3) = map bidView (bids s2)"
    using same by (simp add: sameSerials_def)
  have ids3: "map b_id (bids s') = map b_id (bids s)"
    unfolding s' using ids2 bv by (simp add: map_view_ids(2))
  have aids3: "map auctionId (bids s') = map auctionId (bids s)"
    unfolding s' using aids2 bv by (simp add: map_view_ids(3))
  have won3: "mset (wonSerials (bids s') a)
               = mset (wonSerials (bids s) a)
                 + (if a = aid
                    then mset (map (\<lambda>i. awardedCount auction + int i + 1) [0..<length ?wbs])
                    else {#})" for a
  proof -
    have "wonSerials (bids s') a = wonSerials (bids s2) a"
      unfolding s' using wonSerials_view [OF bv] by simp
    then show ?thesis using won2 by (simp add: settleWinners_serials)
  qed
  have au': "auctions s' = updateFirst ?P f (auctions s)"
    unfolding s' by (simp add: au3 au2)
  show ?thesis
    using inv weak au' _ _ ids3 aids3 won3
    by (rule serialInv_settled) (use f in simp_all)
qed

lemma settle_loop_marks:
  assumes "forEach (settleWinner aid auction t price) ws s = (Inr u, s2)"
    and "distinct (map b_id (bids s))" "distinct (map w_bidId ws)"
  shows "bids s2 = map (\<lambda>b. case find (\<lambda>sw. w_bidId sw = b_id b) ws of
                            Some sw \<Rightarrow> markWon auction t price sw b | None \<Rightarrow> b) (bids s)"
  using assms
proof (induction ws arbitrary: s)
  case Nil
  then show ?case by simp
next
  case (Cons sw rest)
  obtain r1 s1 where b: "settleWinner aid auction t price sw s = (r1, s1)"
    by (cases "settleWinner aid auction t price sw s")
  with Cons.prems(1) have b1: "settleWinner aid auction t price sw s = (Inr (), s1)"
    and rest: "forEach (settleWinner aid auction t price) rest s1 = (Inr u, s2)"
    by (auto split: sum.splits)
  let ?m = "\<lambda>b. if b_id b = w_bidId sw then markWon auction t price sw b else b"
  from settleWinner_bids [OF b1 Cons.prems(2)]
  have bs1: "bids s1 = map ?m (bids s)" by blast
  have ids1: "map b_id (bids s1) = map b_id (bids s)"
    unfolding bs1 by (simp add: comp_def cong: map_cong)
  have d1: "distinct (map b_id (bids s1))" using ids1 Cons.prems(2) by simp
  have dr: "distinct (map w_bidId rest)" using Cons.prems(3) by simp
  have notin: "\<forall>x \<in> set rest. w_bidId x \<noteq> w_bidId sw"
    using Cons.prems(3) by (auto simp: image_iff)
  have none: "find (\<lambda>x. w_bidId x = w_bidId sw) rest = None"
    using notin by (simp add: find_None_iff)
  from Cons.IH [OF rest d1 dr]
  have "bids s2 = map (\<lambda>b. case find (\<lambda>x. w_bidId x = b_id b) rest of
                            Some x \<Rightarrow> markWon auction t price x b | None \<Rightarrow> b) (bids s1)" .
  then show ?case unfolding bs1 by (auto simp: none)
qed

lemma updateFirst_keeps: "x \<in> set xs \<Longrightarrow> \<not> P x \<Longrightarrow> x \<in> set (updateFirst P f xs)"
  by (induction xs) auto

lemma refundLostBid_keeps:
  "refundLostBid aid t b s = (r, s') \<Longrightarrow> x \<in> set (bids s) \<Longrightarrow> status x \<noteq> Active
     \<Longrightarrow> x \<in> set (bids s')"
  by (auto simp: refundLostBid_def updateOne_def insertLedger_def intro: updateFirst_keeps
           split: if_splits)

lemma refund_loop_keeps:
  assumes "forEach (refundLostBid aid t) xs s = (r, s')" "x \<in> set (bids s)" "status x \<noteq> Active"
  shows "x \<in> set (bids s')"
  using assms
proof (induction xs arbitrary: s)
  case Nil
  then show ?case by simp
next
  case (Cons b xs)
  obtain r1 s1 where b: "refundLostBid aid t b s = (r1, s1)"
    by (cases "refundLostBid aid t b s")
  then have x1: "x \<in> set (bids s1)" using Cons.prems(2,3) by (rule refundLostBid_keeps)
  show ?case
  proof (cases r1)
    case (Inl e)
    with b Cons.prems(1) have "s' = s1" by simp
    with x1 show ?thesis by simp
  next
    case (Inr v)
    with b Cons.prems(1) have "forEach (refundLostBid aid t) xs s1 = (r, s')" by simp
    from Cons.IH [OF this x1 Cons.prems(3)] show ?thesis .
  qed
qed

lemma find_by_key_nth:
  "distinct (map k xs) \<Longrightarrow> i < length xs \<Longrightarrow> find (\<lambda>x. k x = k (xs ! i)) xs = Some (xs ! i)"
proof (induction xs arbitrary: i)
  case Nil
  then show ?case by simp
next
  case (Cons a xs)
  show ?case
  proof (cases i)
    case 0
    then show ?thesis by simp
  next
    case (Suc j)
    with Cons.prems have j: "j < length xs" by simp
    then have "xs ! j \<in> set xs" by simp
    then have "k a \<noteq> k (xs ! j)" using Cons.prems(1) by (auto simp: image_iff)
    then show ?thesis using Suc Cons.IH [of j] Cons.prems(1) j by simp
  qed
qed

lemma updateFirst_has:
  "find P xs = Some x \<Longrightarrow> f x \<in> set (updateFirst P f xs)"
  by (induction xs) (auto split: if_splits)

lemma markWon_serial:
  "status (markWon auction t price w x) = Won"
  "map_option giftSerial (settlement (markWon auction t price w x)) = Some (w_giftSerial w)"
  by (simp_all add: markWon_def)

lemma settleTxn_assigns:
  assumes inv: "serialInv s" and ok: "settleTxn aid token env s = (Inr logs, s')"
    and au: "find (\<lambda>a. a_id a = aid \<and> state a = Running \<and> roundState a = Some Closing
                     \<and> closingToken a = Some token) (auctions s) = Some auction"
  shows "\<exists>rd. rounds s' = rounds s @ [rd]
     \<and> map w_userId (winners rd) = map userId (roundWinnerBids aid auction s)
     \<and> map w_giftSerial (winners rd)
         = map (\<lambda>i. awardedCount auction + int i + 1) [0..<length (winners rd)]
     \<and> (\<forall>i < length (winners rd). \<exists>b \<in> set (bids s').
            auctionId b = aid \<and> userId b = w_userId (winners rd ! i) \<and> status b = Won
            \<and> map_option giftSerial (settlement b) = Some (awardedCount auction + int i + 1))
     \<and> (\<exists>a \<in> set (auctions s'). a_id a = aid)
     \<and> (\<forall>a \<in> set (auctions s'). a_id a = aid
            \<longrightarrow> awardedCount a = awardedCount auction + int (length (winners rd)))"
proof -
  let ?P = "\<lambda>a. a_id a = aid \<and> state a = Running \<and> closingToken a = Some token"
  let ?wbs = "roundWinnerBids aid auction s"
  let ?price = "roundClearingPrice ?wbs"
  let ?ws = "settleWinners auction ?wbs ?price"
  let ?rd = "\<lparr>r_auctionId = aid, roundNumber = currentRound auction, r_endedAt = now env,
               r_clearingPrice = ?price, winners = map roundWinnerOf ?ws\<rparr>"
  let ?s1 = "s\<lparr>rounds := rounds s @ [?rd]\<rparr>"
  have da: "distinct (map a_id (auctions s))" and db: "distinct (map b_id (bids s))"
    using inv by (simp_all add: serialInv_def)
  have strong: "find (\<lambda>a. a_id a = aid \<and> (state a = Running \<and> roundState a = Some Closing
                     \<and> closingToken a = Some token)) (auctions s) = Some auction"
    using au by simp
  have am: "auction \<in> set (auctions s)" "a_id auction = aid" "state auction = Running"
      "closingToken auction = Some token"
      using find_SomeD [OF au] by simp_all
  have weak: "find ?P (auctions s) = Some auction"
  proof -
    obtain x where x: "find (\<lambda>a. a_id a = aid \<and> (state a = Running \<and> closingToken a = Some token))
                (auctions s) = Some x"
      using am
      by (cases "find (\<lambda>a. a_id a = aid \<and> (state a = Running \<and> closingToken a = Some token))
                (auctions s)") (auto simp: find_None_iff)
    from find_distinct_key [OF da x strong] x show ?thesis by simp
  qed
  from settleTxn_settled [OF ok au] obtain u s2 where
    loop: "forEach (settleWinner aid auction (now env) ?price) ?ws ?s1 = (Inr u, s2)"
    and fin: "finishRound aid token auction (now env)
          (max 0 (totalQuantity auction - awardedCount auction)) ?price (int (length ?ws)) s2
          = (Inr logs, s')"
    by blast
  have sub: "\<And>b. b \<in> set ?wbs \<Longrightarrow> b \<in> set (bids s) \<and> auctionId b = aid"
    using roundWinnerBids_subset [of aid auction s] by auto
  have r2: "rounds s2 = rounds ?s1"
    using loop by (rule forEach_rounds) (rule settleWinner_rounds)
  have rs: "rounds s' = rounds s @ [?rd]"
    using finishRound_rounds [OF fin] r2 by simp
  have dw: "distinct (map w_bidId ?ws)"
    using roundWinnerBids_ids_distinct [OF db] by (simp add: settleWinners_maps)
  have marks: "bids s2 = map (\<lambda>b. case find (\<lambda>sw. w_bidId sw = b_id b) ?ws of
                            Some sw \<Rightarrow> markWon auction (now env) ?price sw b | None \<Rightarrow> b) (bids s)"
    using settle_loop_marks [OF loop _ dw] db by simp
  have au2: "auctions s2 = auctions s"
    using forEach_auctions [OF loop settleWinner_auctions] by simp
  from finishRound_awarded [OF fin] obtain f s3 where
    s3: "s3 = s2 \<or> (\<exists>u. forEach (refundLostBid aid (now env))
                          (filter (\<lambda>b. auctionId b = aid \<and> status b = Active) (bids s2)) s2
                        = (Inr u, s3))"
    and s': "s' = s3\<lparr>auctions := updateFirst ?P f (auctions s3)\<rparr>"
    and f: "\<forall>a. a_id (f a) = a_id a \<and> awardedCount (f a) = awardedCount auction + int (length ?ws)"
    by blast
  have au3: "auctions s3 = auctions s2"
    using s3 by (auto intro: forEach_auctions refundLostBid_auctions)
  have keep: "x \<in> set (bids s2) \<Longrightarrow> status x \<noteq> Active \<Longrightarrow> x \<in> set (bids s')" for x
    using s3 unfolding s' by (auto intro: refund_loop_keeps)
  have au': "auctions s' = updateFirst ?P f (auctions s)"
    unfolding s' by (simp add: au3 au2)
  have each: "\<exists>b \<in> set (bids s').
            auctionId b = aid \<and> userId b = w_userId (map roundWinnerOf ?ws ! i) \<and> status b = Won
            \<and> map_option giftSerial (settlement b) = Some (awardedCount auction + int i + 1)"
    if "i < length ?wbs" for i
  proof -
    let ?b0 = "?wbs ! i"
    let ?sw = "?ws ! i"
    have mem: "?b0 \<in> set ?wbs" using that by simp
    then have b0: "?b0 \<in> set (bids s)" "auctionId ?b0 = aid" using sub by blast+
    have swn: "w_bidId ?sw = b_id ?b0" "w_userId ?sw = userId ?b0"
      "w_giftSerial ?sw = awardedCount auction + int i + 1"
      using that by (simp_all add: settleWinners_nth)
    have "find (\<lambda>sw. w_bidId sw = w_bidId (?ws ! i)) ?ws = Some (?ws ! i)"
      using dw by (rule find_by_key_nth) (use that in simp)
    then have fd: "find (\<lambda>sw. w_bidId sw = b_id ?b0) ?ws = Some ?sw"
      unfolding swn(1) .
    let ?b = "markWon auction (now env) ?price ?sw ?b0"
    have "?b \<in> set (bids s2)"
      unfolding marks using b0(1) fd by (force simp: image_iff)
    then have "?b \<in> set (bids s')" by (rule keep) (simp add: markWon_serial)
    moreover have "w_userId (map roundWinnerOf ?ws ! i) = userId ?b0"
      using that swn(2) by (simp add: roundWinnerOf_simps)
    ultimately show ?thesis
      using b0(2) swn(3) by (intro bexI [of _ ?b]) (simp_all add: markWon_serial)
  qed
  have 1: "map w_userId (winners ?rd) = map userId ?wbs"
    by (simp add: comp_def settleWinners_maps)
  have 2: "map w_giftSerial (winners ?rd)
         = map (\<lambda>i. awardedCount auction + int i + 1) [0..<length (winners ?rd)]"
    by (simp add: comp_def settleWinners_serials)
  have 3: "\<exists>a \<in> set (auctions s'). a_id a = aid"
    unfolding au' using updateFirst_has [OF weak, of f] f am(2) by auto
  have 4: "\<forall>a \<in> set (auctions s'). a_id a = aid
            \<longrightarrow> awardedCount a = awardedCount auction + int (length (winners ?rd))"
  proof (intro ballI impI)
    fix a assume "a \<in> set (auctions s')" and id: "a_id a = aid"
    then have "a \<in> set (updateFirst ?P f (auctions s))" unfolding au' by simp
    with weak da have "a = f auction \<or> (a \<in> set (auctions s) \<and> a_id a \<noteq> a_id auction)"
      by (rule updateFirst_members)
    with id am(2) have "a = f auction" by simp
    then show "awardedCount a = awardedCount auction + int (length (winners ?rd))"
      using f by simp
  qed
  have 5: "\<forall>i < length (winners ?rd). \<exists>b \<in> set (bids s').
            auctionId b = aid \<and> userId b = w_userId (winners ?rd ! i) \<and> status b = Won
            \<and> map_option giftSerial (settlement b) = Some (awardedCount auction + int i + 1)"
    using each by simp
  show ?thesis
    by (rule exI [of _ ?rd]) (intro conjI rs 1 2 3 4 5)
qed

lemma exec_serials: "serialInv s \<Longrightarrow> serialInv (exec opn s)"
proof (cases opn)
  case (CreateUser newId t)
  then show "serialInv s \<Longrightarrow> ?thesis"
    by (simp add: serialInv_same [OF _ createUser_serials])
next
  case (TopupUser env uid amt)
  assume inv: "serialInv s"
  have "serialInv (snd (withTxn False (\<lambda>attempt. topupUserTxn uid amt (env attempt)) s))"
    using inv by (rule withTxn_invariant) (rule serialInv_same [OF inv topupUserTxn_serials])
  then show ?thesis using TopupUser inv by (simp add: topupUser_def)
next
  case (CreateAuction newId t input)
  then show "serialInv s \<Longrightarrow> ?thesis" by (simp add: createAuction_serials)
next
  case (StartAuction env aid)
  assume inv: "serialInv s"
  have "serialInv (snd (withTxn False (\<lambda>attempt. startAuctionTxn aid (env attempt)) s))"
    using inv by (rule withTxn_invariant) (rule serialInv_same [OF inv startAuctionTxn_serials])
  then show ?thesis using StartAuction by (simp add: startAuction_def)
next
  case (CancelAuction env aid)
  assume inv: "serialInv s"
  have "serialInv (snd (withTxn False (\<lambda>attempt. cancelAuctionTxn aid (env attempt)) s))"
    using inv by (rule withTxn_invariant) (rule serialInv_same [OF inv cancelAuctionTxn_serials])
  then show ?thesis using CancelAuction by (simp add: cancelAuction_def)
next
  case (PlaceBid env aid uid newAmount)
  assume inv: "serialInv s"
  have "serialInv (snd (withTxn True (\<lambda>attempt. placeBidTxn aid uid newAmount (env attempt)) s))"
    using inv by (rule withTxn_invariant) (rule placeBidTxn_serials [OF inv])
  then show ?thesis using PlaceBid inv by (simp add: placeBid_def)
next
  case (WithdrawBid env aid uid)
  assume inv: "serialInv s"
  have "serialInv (snd (withTxn False (\<lambda>attempt. withdrawBidTxn aid uid (env attempt)) s))"
    using inv by (rule withTxn_invariant) (rule serialInv_same [OF inv withdrawBidTxn_serials])
  then show ?thesis using WithdrawBid by (simp add: withdrawBid_def)
next
  case (LockDueRound aid token t)
  then show "serialInv s \<Longrightarrow> ?thesis"
    by (simp add: serialInv_same [OF _ lockDueRound_serials])
next
  case (SettleClosingAuction env aid token)
  assume inv: "serialInv s"
  have "snd (settleClosingAuction env aid token s)
        = snd (withTxn False (\<lambda>attempt. settleTxn aid token (env attempt)) s)"
    by (simp add: settleClosingAuction_def split: prod.splits sum.splits)
  moreover have "serialInv (snd (withTxn False (\<lambda>attempt. settleTxn aid token (env attempt)) s))"
    using inv by (rule withTxn_invariant) (rule settleTxn_serials [OF inv])
  ultimately show ?thesis using SettleClosingAuction by simp
qed

lemma serialInv_empty: "serialInv emptyStore"
  by (simp add: serialInv_def emptyStore_def)

lemma run_serials: "serialInv (run ops emptyStore)"
  using serialInv_empty by (rule run_invariant) (rule exec_serials)

lemma serialInv_sets:
  assumes "serialInv s" "a \<in> set (auctions s)"
  shows "distinct (wonSerials (bids s) (a_id a))"
    and "set (wonSerials (bids s) (a_id a)) = {1..awardedCount a}"
proof -
  have m: "mset (wonSerials (bids s) (a_id a)) = mset [1..awardedCount a]"
    using assms by (simp add: serialInv_def)
  have "distinct [1..awardedCount a]" by simp
  with m show "distinct (wonSerials (bids s) (a_id a))"
    by (metis mset_eq_imp_distinct_iff)
  from m have "set (wonSerials (bids s) (a_id a)) = set [1..awardedCount a]"
    by (rule mset_eq_setD)
  then show "set (wonSerials (bids s) (a_id a)) = {1..awardedCount a}" by simp
qed

text \<open>
  Claim C5. In every store \<open>s\<close> that a sequence of operations reaches from the empty store,
  the gift serials of the won bids of an auction are distinct and are exactly the numbers
  from 1 to \<open>awardedCount\<close>. When \<open>settleClosingAuction\<close> changes such a store, the winner
  at position \<open>i\<close> (from 0) of the round document has the serial \<open>awardedCount + i + 1\<close>,
  the bid of that user in the auction is won with this serial, \<open>awardedCount\<close> of the
  auction has grown by the number of winners, and the serials of the won bids of every
  auction are again distinct and exactly the numbers from 1 to its \<open>awardedCount\<close>.
\<close>

theorem gift_serial_invariant:
  assumes "s = run ops emptyStore"
  shows "(\<forall>a \<in> set (auctions s).
            distinct (wonSerials (bids s) (a_id a))
            \<and> set (wonSerials (bids s) (a_id a)) = {1..awardedCount a})
   \<and> (settleClosingAuction env aid token s = (logs, s') \<and> s' \<noteq> s \<longrightarrow>
        (\<exists>auction rd.
           find (\<lambda>a. a_id a = aid \<and> state a = Running \<and> roundState a = Some Closing
                      \<and> closingToken a = Some token) (auctions s) = Some auction
           \<and> rounds s' = rounds s @ [rd]
           \<and> map w_userId (winners rd) = map userId (roundWinnerBids aid auction s)
           \<and> (\<forall>i < length (winners rd).
                 w_giftSerial (winners rd ! i) = awardedCount auction + int i + 1
                 \<and> (\<exists>b \<in> set (bids s').
                       auctionId b = aid \<and> userId b = w_userId (winners rd ! i) \<and> status b = Won
                       \<and> map_option giftSerial (settlement b)
                           = Some (awardedCount auction + int i + 1)))
           \<and> (\<exists>a \<in> set (auctions s'). a_id a = aid)
           \<and> (\<forall>a \<in> set (auctions s'). a_id a = aid
                 \<longrightarrow> awardedCount a = awardedCount auction + int (length (winners rd)))
           \<and> (\<forall>a \<in> set (auctions s').
                 distinct (wonSerials (bids s') (a_id a))
                 \<and> set (wonSerials (bids s') (a_id a)) = {1..awardedCount a})))"
proof (rule conjI)
  have inv: "serialInv s" unfolding assms by (rule run_serials)
  show "\<forall>a \<in> set (auctions s).
            distinct (wonSerials (bids s) (a_id a))
            \<and> set (wonSerials (bids s) (a_id a)) = {1..awardedCount a}"
    using serialInv_sets [OF inv] by blast
  show "settleClosingAuction env aid token s = (logs, s') \<and> s' \<noteq> s \<longrightarrow>
        (\<exists>auction rd.
           find (\<lambda>a. a_id a = aid \<and> state a = Running \<and> roundState a = Some Closing
                      \<and> closingToken a = Some token) (auctions s) = Some auction
           \<and> rounds s' = rounds s @ [rd]
           \<and> map w_userId (winners rd) = map userId (roundWinnerBids aid auction s)
           \<and> (\<forall>i < length (winners rd).
                 w_giftSerial (winners rd ! i) = awardedCount auction + int i + 1
                 \<and> (\<exists>b \<in> set (bids s').
                       auctionId b = aid \<and> userId b = w_userId (winners rd ! i) \<and> status b = Won
                       \<and> map_option giftSerial (settlement b)
                           = Some (awardedCount auction + int i + 1)))
           \<and> (\<exists>a \<in> set (auctions s'). a_id a = aid)
           \<and> (\<forall>a \<in> set (auctions s'). a_id a = aid
                 \<longrightarrow> awardedCount a = awardedCount auction + int (length (winners rd)))
           \<and> (\<forall>a \<in> set (auctions s').
                 distinct (wonSerials (bids s') (a_id a))
                 \<and> set (wonSerials (bids s') (a_id a)) = {1..awardedCount a}))"
  proof
    let ?Q = "\<lambda>a. a_id a = aid \<and> state a = Running \<and> roundState a = Some Closing
                      \<and> closingToken a = Some token"
    assume a: "settleClosingAuction env aid token s = (logs, s') \<and> s' \<noteq> s"
    then obtain n x where t: "settleTxn aid token (env n) s = (Inr x, s')"
      using settleClosingAuction_cases [of env aid token s logs s'] by blast
    obtain auction where f: "find ?Q (auctions s) = Some auction"
    proof (cases "find ?Q (auctions s)")
      case None
      with t have "s' = s" by (simp add: settleTxn_def)
      with a show ?thesis by simp
    next
      case (Some auction)
      then show ?thesis by (rule that)
    qed
    have inv': "serialInv s'" using inv t by (rule settleTxn_serials)
    from settleTxn_assigns [OF inv t f] obtain rd where all:
      "rounds s' = rounds s @ [rd]
       \<and> map w_userId (winners rd) = map userId (roundWinnerBids aid auction s)
       \<and> map w_giftSerial (winners rd)
           = map (\<lambda>i. awardedCount auction + int i + 1) [0..<length (winners rd)]
       \<and> (\<forall>i < length (winners rd). \<exists>b \<in> set (bids s').
              auctionId b = aid \<and> userId b = w_userId (winners rd ! i) \<and> status b = Won
              \<and> map_option giftSerial (settlement b) = Some (awardedCount auction + int i + 1))
       \<and> (\<exists>a \<in> set (auctions s'). a_id a = aid)
       \<and> (\<forall>a \<in> set (auctions s'). a_id a = aid
              \<longrightarrow> awardedCount a = awardedCount auction + int (length (winners rd)))"
      by (elim exE) (rule that)
    have ser: "w_giftSerial (winners rd ! i) = awardedCount auction + int i + 1"
      if "i < length (winners rd)" for i
    proof -
      have "w_giftSerial (winners rd ! i) = map w_giftSerial (winners rd) ! i"
        using that by simp
      also have "\<dots> = map (\<lambda>i. awardedCount auction + int i + 1) [0..<length (winners rd)] ! i"
        using all by simp
      also have "\<dots> = awardedCount auction + int i + 1" using that by simp
      finally show ?thesis .
    qed
    have sets: "\<forall>a \<in> set (auctions s').
                 distinct (wonSerials (bids s') (a_id a))
                 \<and> set (wonSerials (bids s') (a_id a)) = {1..awardedCount a}"
      using serialInv_sets [OF inv'] by blast
    from all ser have per: "\<forall>i < length (winners rd).
                 w_giftSerial (winners rd ! i) = awardedCount auction + int i + 1
                 \<and> (\<exists>b \<in> set (bids s').
                       auctionId b = aid \<and> userId b = w_userId (winners rd ! i) \<and> status b = Won
                       \<and> map_option giftSerial (settlement b)
                           = Some (awardedCount auction + int i + 1))"
      by blast
    show "\<exists>auction rd.
           find ?Q (auctions s) = Some auction
           \<and> rounds s' = rounds s @ [rd]
           \<and> map w_userId (winners rd) = map userId (roundWinnerBids aid auction s)
           \<and> (\<forall>i < length (winners rd).
                 w_giftSerial (winners rd ! i) = awardedCount auction + int i + 1
                 \<and> (\<exists>b \<in> set (bids s').
                       auctionId b = aid \<and> userId b = w_userId (winners rd ! i) \<and> status b = Won
                       \<and> map_option giftSerial (settlement b)
                           = Some (awardedCount auction + int i + 1)))
           \<and> (\<exists>a \<in> set (auctions s'). a_id a = aid)
           \<and> (\<forall>a \<in> set (auctions s'). a_id a = aid
                 \<longrightarrow> awardedCount a = awardedCount auction + int (length (winners rd)))
           \<and> (\<forall>a \<in> set (auctions s').
                 distinct (wonSerials (bids s') (a_id a))
                 \<and> set (wonSerials (bids s') (a_id a)) = {1..awardedCount a})"
      using f all per sets by (intro exI [of _ auction] exI [of _ rd]) simp
  qed
qed

text \<open>
  In \<open>twoGiftsStore\<close> no gift is awarded yet. The settlement of the first round gives the
  serials 1 and 2 to the bids of the first and the second user and sets \<open>awardedCount\<close>
  to 2.
\<close>

theorem gift_serial_invariant_witness:
  "snd (settleClosingAuction (envAt 10651 []) ''a1'' ''tok1'' twoGiftsStore) \<noteq> twoGiftsStore
   \<and> map awardedCount (auctions twoGiftsStore) = [0]
   \<and> wonSerials (bids twoGiftsStore) ''a1'' = []
   \<and> map w_giftSerial
        (winners (last (rounds (snd (settleClosingAuction (envAt 10651 []) ''a1'' ''tok1''
                                       twoGiftsStore)))))
       = [1, 2]
   \<and> map awardedCount
        (auctions (snd (settleClosingAuction (envAt 10651 []) ''a1'' ''tok1'' twoGiftsStore)))
       = [2]
   \<and> wonSerials (bids (snd (settleClosingAuction (envAt 10651 []) ''a1'' ''tok1'' twoGiftsStore)))
        ''a1''
       = [1, 2]
   \<and> distinct
        (wonSerials (bids (snd (settleClosingAuction (envAt 10651 []) ''a1'' ''tok1'' twoGiftsStore)))
           ''a1'')
   \<and> set (wonSerials (bids (snd (settleClosingAuction (envAt 10651 []) ''a1'' ''tok1'' twoGiftsStore)))
           ''a1'')
       = {1..2}"
proof -
  let ?s' = "snd (settleClosingAuction (envAt 10651 []) ''a1'' ''tok1'' twoGiftsStore)"
  have "rounds twoGiftsStore = []" by code_simp
  moreover have "rounds ?s' \<noteq> []" by code_simp
  ultimately have ne: "?s' \<noteq> twoGiftsStore" by auto
  have e: "settleClosingAuction (envAt 10651 []) ''a1'' ''tok1'' twoGiftsStore
           = (fst (settleClosingAuction (envAt 10651 []) ''a1'' ''tok1'' twoGiftsStore), ?s')"
    by simp
  from gift_serial_invariant [OF twoGiftsStore_def, THEN conjunct2, rule_format, OF conjI, OF e ne]
  have after: "\<forall>a \<in> set (auctions ?s').
                 distinct (wonSerials (bids ?s') (a_id a))
                 \<and> set (wonSerials (bids ?s') (a_id a)) = {1..awardedCount a}"
    by blast
  have m: "hd (auctions ?s') \<in> set (auctions ?s')" by code_simp
  have i: "a_id (hd (auctions ?s')) = ''a1''" "awardedCount (hd (auctions ?s')) = 2"
    by code_simp+
  from after m i have d: "distinct (wonSerials (bids ?s') ''a1'')"
    "set (wonSerials (bids ?s') ''a1'') = {1..2}"
    by force+
  have 1: "map awardedCount (auctions twoGiftsStore) = [0]" by code_simp
  have 2: "wonSerials (bids twoGiftsStore) ''a1'' = []" by code_simp
  have 3: "map w_giftSerial (winners (last (rounds ?s'))) = [1, 2]" by code_simp
  have 4: "map awardedCount (auctions ?s') = [2]" by code_simp
  have 5: "wonSerials (bids ?s') ''a1'' = [1, 2]" by code_simp
  from ne 1 2 3 4 5 d show ?thesis by blast
qed


end
